theory Spec2Isabelle
  imports Main "HOL-Library.AList" "HOL-Library.Sublist"
begin

section \<open>Release builder for browser extensions: a model of \<open>scripts/build_release.py\<close>\<close>

text \<open>
  The script has two classes. \<open>Manifest\<close> wraps the parsed \<open>manifest.json\<close> and can bump
  its version; \<open>ReleaseBuilder\<close> walks the project directory and writes two ZIP archives.
  Both are modelled as functions over an explicit world (file tree, locked paths, console),
  exceptions are values of the type \<open>error\<close>, and the world is returned also when an
  exception is raised, since the script leaves side effects behind in that case.

  Conventions of the model:
  \<^item> a character is a code point below 256 (Isabelle's \<open>char\<close>); Python's \<open>str.lower\<close> and
    \<open>int\<close> are modelled exactly on this range, code points beyond it are outside the model;
  \<^item> paths are POSIX paths (\<open>os.sep = '/'\<close>), there are no symbolic links, and every path the
    script builds is absolute;
  \<^item> Python's integers are unbounded (\<open>int\<close>); the interpreter's optional limit on the
    number of digits of a converted integer is not modelled.
\<close>

subsection \<open>Strings\<close>

text \<open>\<open>s.split(sep)\<close> for a one-character separator: never empty, \<open>''.split('.') = ['']\<close>.\<close>

fun split_sep :: "char \<Rightarrow> string \<Rightarrow> string list" where
  "split_sep sep [] = [[]]"
| "split_sep sep (c # cs) =
     (let r = split_sep sep cs in if c = sep then [] # r else (c # hd r) # tl r)"

text \<open>\<open>s.strip(chars)\<close>, the characters to strip given as a predicate.\<close>

definition strip :: "(char \<Rightarrow> bool) \<Rightarrow> string \<Rightarrow> string" where
  "strip P s = rev (dropWhile P (rev (dropWhile P s)))"

text \<open>
  \<open>int(s)\<close> in base 10: surrounding whitespace is skipped, one sign is allowed, then at least
  one digit, with single underscores allowed between digits. Anything else raises
  \<open>ValueError\<close> (\<open>None\<close> here).
\<close>

definition is_space :: "char \<Rightarrow> bool" where
  "is_space c \<longleftrightarrow> (of_char c :: nat) \<in> {9, 10, 11, 12, 13, 32, 133, 160}"

definition is_digit :: "char \<Rightarrow> bool" where
  "is_digit c \<longleftrightarrow> c \<in> set ''0123456789''"

definition digit_val :: "char \<Rightarrow> nat" where
  "digit_val c = of_char c - 48"

definition digit_char :: "nat \<Rightarrow> char" where
  "digit_char n = ''0123456789'' ! n"

fun scan_digits :: "nat \<Rightarrow> string \<Rightarrow> nat option" where
  "scan_digits acc [] = Some acc"
| "scan_digits acc [c] = (if is_digit c then Some (10 * acc + digit_val c) else None)"
| "scan_digits acc (c # d # cs) =
     (if is_digit c then scan_digits (10 * acc + digit_val c) (d # cs)
      else if c = CHR ''_'' \<and> is_digit d then scan_digits (10 * acc + digit_val d) cs
      else None)"

definition parse_nat :: "string \<Rightarrow> nat option" where
  "parse_nat s =
     (case s of [] \<Rightarrow> None
      | c # cs \<Rightarrow> if is_digit c then scan_digits (digit_val c) cs else None)"

definition py_int :: "string \<Rightarrow> int option" where
  "py_int s =
     (let t = strip is_space s in
      if t \<noteq> [] \<and> hd t = CHR ''-'' then map_option (\<lambda>n. - int n) (parse_nat (tl t))
      else if t \<noteq> [] \<and> hd t = CHR ''+'' then map_option int (parse_nat (tl t))
      else map_option int (parse_nat t))"

text \<open>
  The strings that \<open>int\<close> reads, said of the string itself rather than by scanning it:
  after the surrounding whitespace and one optional sign there are only digits and
  underscores, beginning and ending with a digit, with no two underscores in a row.
\<close>

definition digit_string :: "string \<Rightarrow> bool" where
  "digit_string u \<longleftrightarrow>
     u \<noteq> [] \<and> (\<forall>c\<in>set u. is_digit c \<or> c = CHR ''_'')
     \<and> is_digit (hd u) \<and> is_digit (last u) \<and> \<not> sublist ''__'' u"

definition numeric :: "string \<Rightarrow> bool" where
  "numeric s \<longleftrightarrow>
     (let t = strip is_space s
      in digit_string (if t \<noteq> [] \<and> (hd t = CHR ''-'' \<or> hd t = CHR ''+'') then tl t else t))"

text \<open>\<open>str(i)\<close> of an integer, as the f-string \<open>f'{major}.{minor}.{patch}'\<close> formats it.\<close>

function digits :: "nat \<Rightarrow> string" where
  "digits n = (if n < 10 then [digit_char n] else digits (n div 10) @ [digit_char (n mod 10)])"
  by pat_completeness auto
termination
  by (relation "measure id") auto

declare digits.simps [simp del]

definition py_str :: "int \<Rightarrow> string" where
  "py_str i = (if i < 0 then CHR ''-'' # digits (nat (- i)) else digits (nat i))"

text \<open>\<open>s.lower()\<close>: below 256 the cased code points are A-Z and the Latin-1 capitals.\<close>

definition lower_char :: "char \<Rightarrow> char" where
  "lower_char c =
     (let n = of_char c :: nat in
      if (65 \<le> n \<and> n \<le> 90) \<or> (192 \<le> n \<and> n \<le> 222 \<and> n \<noteq> 215) then char_of (n + 32)
      else c)"

definition lower :: "string \<Rightarrow> string" where
  "lower s = map lower_char s"

text \<open>
  \<open>re.sub(r'[^a-z0-9]+', '-', s)\<close>: every maximal run of characters outside \<open>[a-z0-9]\<close>
  becomes one hyphen.
\<close>

definition is_lower_alnum :: "char \<Rightarrow> bool" where
  "is_lower_alnum c \<longleftrightarrow> c \<in> set ''abcdefghijklmnopqrstuvwxyz0123456789''"

function re_sub :: "string \<Rightarrow> string" where
  "re_sub [] = []"
| "re_sub (c # cs) =
     (if is_lower_alnum c then c # re_sub cs
      else CHR ''-'' # re_sub (dropWhile (\<lambda>x. \<not> is_lower_alnum x) cs))"
  by pat_completeness auto
termination
  by (relation "measure length") (auto simp: less_Suc_eq_le length_dropWhile_le)

text \<open>\<open>posixpath.join\<close> for two components and \<open>posixpath.basename\<close>.\<close>

definition os_path_join :: "string \<Rightarrow> string \<Rightarrow> string" where
  "os_path_join a b =
     (if prefix ''/'' b then b
      else if a = [] \<or> suffix ''/'' a then a @ b
      else a @ ''/'' @ b)"

definition os_path_basename :: "string \<Rightarrow> string" where
  "os_path_basename p = last (split_sep CHR ''/'' p)"

subsection \<open>Exceptions, JSON values and the file tree\<close>

text \<open>
  The exceptions the script can let escape. \<open>ValueError\<close> is what \<open>int\<close> raises on a
  component that is not a number; \<open>ParseError\<close> stands for the decoder's error on a file
  that is not JSON; \<open>SystemExit n\<close> is \<open>raise SystemExit(n)\<close>.
\<close>

datatype error =
    AttributeError | TypeError | ValueError | ParseError
  | FileNotFoundError | NotADirectoryError | IsADirectoryError | FileExistsError
  | PermissionError | SystemExit int

text \<open>
  What \<open>json.load\<close> returns. An object is a \<open>dict\<close>: an association list in insertion order.
  A float is carried by its \<open>repr\<close>, which identifies it; the script never computes with one.
\<close>

datatype json =
    JNull | JBool bool | JInt int | JFloat string | JString string
  | JArray "json list" | JObject "(string \<times> json) list"

text \<open>
  A file holds a JSON document, a closed ZIP archive (the names of its entries, in order,
  each entry name as the list of its path segments) or something else. \<open>File r c\<close> can be
  opened for reading iff \<open>r\<close>. A directory lists its children in the order \<open>os.walk\<close> meets
  them.
\<close>

datatype content = Raw | Json json | Zip "string list list"

datatype node = File bool content | Dir "(string \<times> node) list"

text \<open>
  The world: the tree below \<open>/\<close>, the canonical paths that \<open>os.remove\<close> and an \<open>open\<close> for
  writing refuse with \<open>PermissionError\<close> (a file held open by another program, a read-only
  directory), and the lines printed so far.
\<close>

record world =
  fs :: node
  locked :: "string list list"
  stdout :: "string list"

fun lookup :: "node \<Rightarrow> string list \<Rightarrow> node option" where
  "lookup n [] = Some n"
| "lookup (Dir cs) (s # ss) = (case map_of cs s of None \<Rightarrow> None | Some c \<Rightarrow> lookup c ss)"
| "lookup (File r c) (s # ss) = None"

text \<open>\<open>put t p x\<close> stores \<open>x\<close> at \<open>p\<close> when the parent of \<open>p\<close> is a directory of \<open>t\<close>.\<close>

fun put :: "node \<Rightarrow> string list \<Rightarrow> node \<Rightarrow> node" where
  "put n [] x = x"
| "put (Dir cs) (s # ss) x =
     (if ss = [] then Dir (AList.update s x cs)
      else case map_of cs s of
             None \<Rightarrow> Dir cs
           | Some c \<Rightarrow> Dir (AList.update s (put c ss x) cs))"
| "put (File r c) (s # ss) x = File r c"

fun remove_at :: "node \<Rightarrow> string list \<Rightarrow> node" where
  "remove_at n [] = n"
| "remove_at (Dir cs) (s # ss) =
     (if ss = [] then Dir (AList.delete s cs)
      else case map_of cs s of
             None \<Rightarrow> Dir cs
           | Some c \<Rightarrow> Dir (AList.update s (remove_at c ss) cs))"
| "remove_at (File r c) (s # ss) = File r c"

text \<open>
  Path resolution from \<open>/\<close>: every component but the last must name a directory; empty
  components and \<open>.\<close> stay, \<open>..\<close> goes up. The result is the canonical path, which may or
  may not exist.
\<close>

fun resolve_from :: "node \<Rightarrow> string list \<Rightarrow> string list \<Rightarrow> error + string list" where
  "resolve_from t cur [] = Inr cur"
| "resolve_from t cur (s # ss) =
     (case lookup t cur of
        None \<Rightarrow> Inl FileNotFoundError
      | Some (File r c) \<Rightarrow> Inl NotADirectoryError
      | Some (Dir cs) \<Rightarrow>
          if s = [] \<or> s = ''.'' then resolve_from t cur ss
          else if s = ''..'' then resolve_from t (butlast cur) ss
          else resolve_from t (cur @ [s]) ss)"

definition resolve :: "node \<Rightarrow> string \<Rightarrow> error + string list" where
  "resolve t p =
     (if p = [] then Inl FileNotFoundError else resolve_from t [] (split_sep CHR ''/'' p))"

definition stat :: "world \<Rightarrow> string \<Rightarrow> node option" where
  "stat w p = (case resolve (fs w) p of Inl e \<Rightarrow> None | Inr q \<Rightarrow> lookup (fs w) q)"

definition os_path_exists :: "world \<Rightarrow> string \<Rightarrow> bool" where
  "os_path_exists w p \<longleftrightarrow> stat w p \<noteq> None"

definition os_path_isfile :: "world \<Rightarrow> string \<Rightarrow> bool" where
  "os_path_isfile w p \<longleftrightarrow> (case stat w p of Some (File r c) \<Rightarrow> True | _ \<Rightarrow> False)"

definition os_path_isdir :: "world \<Rightarrow> string \<Rightarrow> bool" where
  "os_path_isdir w p \<longleftrightarrow> (case stat w p of Some (Dir cs) \<Rightarrow> True | _ \<Rightarrow> False)"

definition os_remove :: "world \<Rightarrow> string \<Rightarrow> (error + unit) \<times> world" where
  "os_remove w p =
     (case resolve (fs w) p of
        Inl e \<Rightarrow> (Inl e, w)
      | Inr q \<Rightarrow>
          (case lookup (fs w) q of
             None \<Rightarrow> (Inl FileNotFoundError, w)
           | Some n \<Rightarrow>
               if q \<in> set (locked w) then (Inl PermissionError, w)
               else (case n of
                       Dir cs \<Rightarrow> (Inl IsADirectoryError, w)
                     | File r c \<Rightarrow> (Inr (), w\<lparr>fs := remove_at (fs w) q\<rparr>))))"

text \<open>
  \<open>open(p, 'w')\<close>: creates the file or truncates it, and returns the canonical path as the
  handle. \<open>write_content\<close> is what the file holds once the handle is closed.
\<close>

definition open_w :: "world \<Rightarrow> string \<Rightarrow> (error + string list) \<times> world" where
  "open_w w p =
     (case resolve (fs w) p of
        Inl e \<Rightarrow> (Inl e, w)
      | Inr q \<Rightarrow>
          if q \<in> set (locked w) then (Inl PermissionError, w)
          else (case lookup (fs w) q of
                  Some (Dir cs) \<Rightarrow> (Inl IsADirectoryError, w)
                | Some (File r c) \<Rightarrow> (Inr q, w\<lparr>fs := put (fs w) q (File r Raw)\<rparr>)
                | None \<Rightarrow> (Inr q, w\<lparr>fs := put (fs w) q (File True Raw)\<rparr>)))"

definition write_content :: "world \<Rightarrow> string list \<Rightarrow> content \<Rightarrow> world" where
  "write_content w q c =
     (case lookup (fs w) q of
        Some (File r c') \<Rightarrow> w\<lparr>fs := put (fs w) q (File r c)\<rparr>
      | _ \<Rightarrow> w)"

text \<open>
  \<open>os.makedirs(p, exist_ok=True)\<close> on a normalised path: missing directories are created
  along the way; a file in the way raises.
\<close>

fun makedirs_from :: "node \<Rightarrow> string list \<Rightarrow> string list \<Rightarrow> error + node" where
  "makedirs_from t cur [] = Inr t"
| "makedirs_from t cur (s # ss) =
     (if s = [] \<or> s = ''.'' then makedirs_from t cur ss
      else if s = ''..'' then makedirs_from t (butlast cur) ss
      else (case lookup t (cur @ [s]) of
              None \<Rightarrow> makedirs_from (put t (cur @ [s]) (Dir [])) (cur @ [s]) ss
            | Some (Dir cs) \<Rightarrow> makedirs_from t (cur @ [s]) ss
            | Some (File r c) \<Rightarrow>
                Inl (if ss = [] then FileExistsError else NotADirectoryError)))"

definition makedirs :: "world \<Rightarrow> string \<Rightarrow> (error + unit) \<times> world" where
  "makedirs w p =
     (case makedirs_from (fs w) [] (split_sep CHR ''/'' p) of
        Inl e \<Rightarrow> (Inl e, w)
      | Inr t \<Rightarrow> (Inr (), w\<lparr>fs := t\<rparr>))"

text \<open>
  Two tests used in the proofs: \<open>p\<close> names a directory of \<open>t\<close>; the parent of \<open>q\<close> is a
  directory of \<open>t\<close>, so that a file can be created at \<open>q\<close>.
\<close>

definition dir_at :: "node \<Rightarrow> string list \<Rightarrow> bool" where
  "dir_at t p \<longleftrightarrow> (case lookup t p of Some (Dir cs) \<Rightarrow> True | _ \<Rightarrow> False)"

definition parent_ok :: "node \<Rightarrow> string list \<Rightarrow> bool" where
  "parent_ok t q \<longleftrightarrow> q = [] \<or> dir_at t (butlast q)"

subsection \<open>class Manifest\<close>

record manifest =
  path :: string
  data :: json

definition load :: "world \<Rightarrow> string \<Rightarrow> error + json" where
  "load w p =
     (case resolve (fs w) p of
        Inl e \<Rightarrow> Inl e
      | Inr q \<Rightarrow>
          (case lookup (fs w) q of
             None \<Rightarrow> Inl FileNotFoundError
           | Some (Dir cs) \<Rightarrow> Inl IsADirectoryError
           | Some (File r c) \<Rightarrow>
               if \<not> r then Inl PermissionError
               else (case c of Json j \<Rightarrow> Inr j | _ \<Rightarrow> Inl ParseError)))"

definition Manifest :: "world \<Rightarrow> string \<Rightarrow> error + manifest" where
  "Manifest w p = (case load w p of Inl e \<Rightarrow> Inl e | Inr j \<Rightarrow> Inr \<lparr>path = p, data = j\<rparr>)"

definition save :: "manifest \<Rightarrow> world \<Rightarrow> (error + unit) \<times> world" where
  "save m w =
     (case open_w w (path m) of
        (Inl e, w') \<Rightarrow> (Inl e, w')
      | (Inr q, w') \<Rightarrow> (Inr (), write_content w' q (Json (data m))))"

text \<open>\<open>self._data.get(key, default)\<close>; only a \<open>dict\<close> has \<open>get\<close>.\<close>

definition dict_get :: "json \<Rightarrow> string \<Rightarrow> json \<Rightarrow> error + json" where
  "dict_get d k dflt =
     (case d of
        JObject kvs \<Rightarrow> Inr (case map_of kvs k of None \<Rightarrow> dflt | Some v \<Rightarrow> v)
      | _ \<Rightarrow> Inl AttributeError)"

definition name :: "manifest \<Rightarrow> error + json" where
  "name m = dict_get (data m) ''name'' (JString ''extension'')"

definition slugify :: "string \<Rightarrow> string" where
  "slugify s = strip (\<lambda>c. c = CHR ''-'') (re_sub (lower s))"

definition slug :: "manifest \<Rightarrow> error + string" where
  "slug m =
     (case name m of
        Inl e \<Rightarrow> Inl e
      | Inr (JString s) \<Rightarrow> Inr (slugify s)
      | Inr _ \<Rightarrow> Inl AttributeError)"

definition version :: "manifest \<Rightarrow> error + json" where
  "version m = dict_get (data m) ''version'' (JString ''0.0.0'')"

definition description :: "manifest \<Rightarrow> error + json" where
  "description m = dict_get (data m) ''description'' (JString '''')"

text \<open>
  The setter of \<open>version\<close>: \<open>self._data['version'] = value\<close>, then \<open>self._save()\<close>. Assigning
  to a key of a \<open>dict\<close> keeps the key's position, or appends a new key at the end.
\<close>

definition set_version :: "manifest \<Rightarrow> world \<Rightarrow> json \<Rightarrow> (error + unit) \<times> manifest \<times> world" where
  "set_version m w v =
     (case data m of
        JObject kvs \<Rightarrow>
          (let m' = m\<lparr>data := JObject (AList.update ''version'' v kvs)\<rparr>
           in case save m' w of (r, w') \<Rightarrow> (r, m', w'))
      | _ \<Rightarrow> (Inl TypeError, m, w))"

text \<open>The loop \<open>while len(parts) < 3: parts.append('0')\<close>.\<close>

function pad_parts :: "string list \<Rightarrow> string list" where
  "pad_parts parts = (if length parts < 3 then pad_parts (parts @ [''0'']) else parts)"
  by pat_completeness auto
termination
  by (relation "measure (\<lambda>parts. 3 - length parts)") auto

declare pad_parts.simps [simp del]

definition bump :: "string \<Rightarrow> int \<times> int \<times> int \<Rightarrow> int \<times> int \<times> int" where
  "bump bump_type v =
     (case v of (major, minor, patch) \<Rightarrow>
        if bump_type = ''major'' then (major + 1, 0, 0)
        else if bump_type = ''minor'' then (major, minor + 1, 0)
        else (major, minor, patch + 1))"

definition format_version :: "int \<times> int \<times> int \<Rightarrow> string" where
  "format_version v =
     (case v of (major, minor, patch) \<Rightarrow>
        py_str major @ ''.'' @ py_str minor @ ''.'' @ py_str patch)"

definition bump_version ::
  "manifest \<Rightarrow> world \<Rightarrow> string \<Rightarrow> (error + string \<times> string) \<times> manifest \<times> world" where
  "bump_version m w bump_type =
     (case version m of
        Inl e \<Rightarrow> (Inl e, m, w)
      | Inr (JString old_version) \<Rightarrow>
          (let parts = pad_parts (split_sep CHR ''.'' old_version) in
           case (py_int (parts ! 0), py_int (parts ! 1), py_int (parts ! 2)) of
             (Some major, Some minor, Some patch) \<Rightarrow>
               (let new_version = format_version (bump bump_type (major, minor, patch))
                in case set_version m w (JString new_version) of
                     (Inl e, m', w') \<Rightarrow> (Inl e, m', w')
                   | (Inr u, m', w') \<Rightarrow> (Inr (old_version, new_version), m', w'))
           | _ \<Rightarrow> (Inl ValueError, m, w))
      | Inr _ \<Rightarrow> (Inl AttributeError, m, w))"

text \<open>No two hyphens in a row, as a recursive test.\<close>

fun no_double :: "string \<Rightarrow> bool" where
  "no_double (a # b # cs) = (\<not> (a = CHR ''-'' \<and> b = CHR ''-'') \<and> no_double (b # cs))"
| "no_double _ = True"

subsection \<open>class ReleaseBuilder\<close>

record builder =
  project_root :: string
  manifest :: manifest

definition STORE_FILES :: "string list" where
  "STORE_FILES = [''manifest.json'', ''icons'', ''src'']"

definition DOCS_FILES :: "string list" where
  "DOCS_FILES = [''README.md'', ''PRIVACY.md'', ''LICENSE'', ''CHANGELOG.md'']"

definition EXCLUDE_PATTERNS :: "string list" where
  "EXCLUDE_PATTERNS =
     [''__pycache__'', ''.git'', ''.gitignore'', ''.gitattributes'', ''node_modules'',
      ''releases'', ''docs'', ''scripts'', ''.vscode'', ''.idea'', ''*.zip'', ''*.pyc'',
      ''.DS_Store'', ''Thumbs.db'']"

definition output_dir :: "builder \<Rightarrow> string" where
  "output_dir b = os_path_join (project_root b) ''releases''"

text \<open>
  \<open>ReleaseBuilder(project_root)\<close>; the default root, two levels above the script, is the
  caller's to supply.
\<close>

definition ReleaseBuilder :: "world \<Rightarrow> string \<Rightarrow> error + builder" where
  "ReleaseBuilder w root =
     (case Manifest w (os_path_join root ''manifest.json'') of
        Inl e \<Rightarrow> Inl e
      | Inr m \<Rightarrow> Inr \<lparr>project_root = root, manifest = m\<rparr>)"

text \<open>The loop of \<open>_should_exclude\<close> over the patterns, with its early returns.\<close>

fun exclude_loop :: "string list \<Rightarrow> string \<Rightarrow> string \<Rightarrow> bool" where
  "exclude_loop [] pth nm = False"
| "exclude_loop (pattern # patterns) pth nm =
     (if prefix ''*'' pattern then
        (if suffix (drop 1 pattern) nm then True else exclude_loop patterns pth nm)
      else if pattern = nm \<or> pattern \<in> set (split_sep CHR ''/'' pth) then True
      else exclude_loop patterns pth nm)"

definition should_exclude :: "string \<Rightarrow> bool" where
  "should_exclude pth = exclude_loop EXCLUDE_PATTERNS pth (os_path_basename pth)"

text \<open>
  \<open>os.walk(source)\<close>, top down, on the children of the directory \<open>source\<close>. Each step yields
  the directory (as the path below \<open>source\<close>), the names of its subdirectories and its other
  entries. The caller prunes the list of subdirectories in place before the walk
  descends; \<open>prune\<close> is the caller's test.
\<close>

fun os_walk ::
    "(string \<Rightarrow> bool) \<Rightarrow> string list \<Rightarrow> (string \<times> node) list
      \<Rightarrow> (string list \<times> string list \<times> (string \<times> node) list) list"
  and walk_subdirs ::
    "(string \<Rightarrow> bool) \<Rightarrow> string list \<Rightarrow> (string \<times> node) list
      \<Rightarrow> (string list \<times> string list \<times> (string \<times> node) list) list"
where
  "os_walk prune root cs =
     (root,
      map fst (filter (\<lambda>(d, n). (case n of Dir ds \<Rightarrow> \<not> prune d | File r c \<Rightarrow> False)) cs),
      filter (\<lambda>(f, n). (case n of Dir ds \<Rightarrow> False | File r c \<Rightarrow> True)) cs)
     # walk_subdirs prune root cs"
| "walk_subdirs prune root [] = []"
| "walk_subdirs prune root ((d, Dir ds) # cs) =
     (if prune d then [] else os_walk prune (root @ [d]) ds) @ walk_subdirs prune root cs"
| "walk_subdirs prune root ((f, File r c) # cs) = walk_subdirs prune root cs"

declare os_walk.simps [simp del]

text \<open>
  The archive being written is the list of its entry names so far. \<open>zipf.write\<close> reads the
  file; a file that cannot be read raises, and the loop stops there.
\<close>

fun write_files ::
  "string list list \<Rightarrow> (string list \<times> node) list \<Rightarrow> error option \<times> string list list" where
  "write_files es [] = (None, es)"
| "write_files es ((arc, File r c) # rest) =
     (if r then write_files (es @ [arc]) rest else (Some PermissionError, es))"
| "write_files es ((arc, Dir ds) # rest) = write_files (es @ [arc]) rest"

text \<open>
  The files of one \<open>os.walk\<close> that \<open>_add_to_zip\<close> writes, in order, each with its archive
  name \<open>arcname/relative path\<close> as a list of segments.
\<close>

definition walk_files :: "string \<Rightarrow> (string \<times> node) list \<Rightarrow> (string list \<times> node) list" where
  "walk_files arcname cs =
     concat (map (\<lambda>(root, dirs, files).
                    map (\<lambda>(file, n). (arcname # root @ [file], n))
                        (filter (\<lambda>(file, n). \<not> should_exclude file) files))
                 (os_walk should_exclude [] cs))"

definition add_to_zip ::
  "world \<Rightarrow> string list list \<Rightarrow> string \<Rightarrow> string option \<Rightarrow> error option \<times> string list list" where
  "add_to_zip w es source arcname =
     (let arc = (case arcname of None \<Rightarrow> os_path_basename source | Some a \<Rightarrow> a) in
      case stat w source of
        Some (File r c) \<Rightarrow>
          if \<not> should_exclude source then write_files es [([arc], File r c)]
          else (None, es)
      | Some (Dir cs) \<Rightarrow> write_files es (walk_files arc cs)
      | None \<Rightarrow> (None, es))"

text \<open>The loop \<open>for item in files\<close> of \<open>_create_package\<close>.\<close>

fun add_items ::
  "builder \<Rightarrow> world \<Rightarrow> string list list \<Rightarrow> string list \<Rightarrow> error option \<times> string list list" where
  "add_items b w es [] = (None, es)"
| "add_items b w es (item # items) =
     (let source = os_path_join (project_root b) item in
      if os_path_exists w source then
        (case add_to_zip w es source (Some item) of
           (None, es') \<Rightarrow> add_items b w es' items
         | (Some e, es') \<Rightarrow> (Some e, es'))
      else add_items b w es items)"

text \<open>
  \<open>f'{self.manifest.version}'\<close>: a string formats as itself; for a version that is not a
  string the text is \<open>fmt\<close> of it, a parameter, since \<open>repr\<close> is not modelled.
\<close>

definition format_field :: "(json \<Rightarrow> string) \<Rightarrow> json \<Rightarrow> string" where
  "format_field fmt v = (case v of JString s \<Rightarrow> s | _ \<Rightarrow> fmt v)"

definition package_filename :: "(json \<Rightarrow> string) \<Rightarrow> builder \<Rightarrow> string \<Rightarrow> error + string" where
  "package_filename fmt b sfx =
     (case slug (manifest b) of
        Inl e \<Rightarrow> Inl e
      | Inr sl \<Rightarrow>
          (case version (manifest b) of
             Inl e \<Rightarrow> Inl e
           | Inr v \<Rightarrow> Inr (sl @ ''-v'' @ format_field fmt v @ sfx @ ''.zip'')))"

text \<open>The removal of an existing archive, and what is printed when it is refused.\<close>

definition cannot_overwrite :: "string \<Rightarrow> string list" where
  "cannot_overwrite filename =
     [''\<newline>  Error: Cannot overwrite '' @ filename,
      ''  The file may be open in another program.'',
      ''  Close the file and try again.\<newline>'']"

definition remove_existing :: "world \<Rightarrow> string \<Rightarrow> string \<Rightarrow> (error + unit) \<times> world" where
  "remove_existing w filename filepath =
     (if os_path_exists w filepath then
        (case os_remove w filepath of
           (Inl PermissionError, w') \<Rightarrow>
             (Inl (SystemExit 1),
              w'\<lparr>stdout := stdout w' @ cannot_overwrite filename\<rparr>)
         | (Inl e, w') \<Rightarrow> (Inl e, w')
         | (Inr u, w') \<Rightarrow> (Inr (), w'))
      else (Inr (), w))"

definition create_package ::
  "(json \<Rightarrow> string) \<Rightarrow> builder \<Rightarrow> world \<Rightarrow> string list \<Rightarrow> string \<Rightarrow> (error + string) \<times> world" where
  "create_package fmt b w files sfx =
     (case package_filename fmt b sfx of
        Inl e \<Rightarrow> (Inl e, w)
      | Inr filename \<Rightarrow>
          (let filepath = os_path_join (output_dir b) filename in
           case remove_existing w filename filepath of
             (Inl e, w1) \<Rightarrow> (Inl e, w1)
           | (Inr u, w1) \<Rightarrow>
               (case open_w w1 filepath of
                  (Inl e, w2) \<Rightarrow> (Inl e, w2)
                | (Inr q, w2) \<Rightarrow>
                    (case add_items b w2 [] files of
                       (err, es) \<Rightarrow>
                         (let w3 = write_content w2 q (Zip es) in
                          case err of None \<Rightarrow> (Inr filepath, w3) | Some e \<Rightarrow> (Inl e, w3))))))"

definition get_existing_files :: "builder \<Rightarrow> world \<Rightarrow> string list \<Rightarrow> string list" where
  "get_existing_files b w file_list =
     filter (\<lambda>item. os_path_exists w (os_path_join (project_root b) item)) file_list"

definition build_store_package ::
  "(json \<Rightarrow> string) \<Rightarrow> builder \<Rightarrow> world \<Rightarrow> (error + string) \<times> world" where
  "build_store_package fmt b w =
     create_package fmt b w (get_existing_files b w STORE_FILES) ''-store''"

definition build_github_package ::
  "(json \<Rightarrow> string) \<Rightarrow> builder \<Rightarrow> world \<Rightarrow> (error + string) \<times> world" where
  "build_github_package fmt b w =
     create_package fmt b w
       (get_existing_files b w STORE_FILES @ get_existing_files b w DOCS_FILES) ''''"

record summary =
  res_name :: json
  res_slug :: string
  res_version :: json
  res_description :: json
  res_store :: string
  res_github :: string
  res_output_dir :: string

definition build_all ::
  "(json \<Rightarrow> string) \<Rightarrow> builder \<Rightarrow> world \<Rightarrow> (error + summary) \<times> world" where
  "build_all fmt b w =
     (case makedirs w (output_dir b) of
        (Inl e, w0) \<Rightarrow> (Inl e, w0)
      | (Inr u, w0) \<Rightarrow>
     (case name (manifest b) of Inl e \<Rightarrow> (Inl e, w0) | Inr nm \<Rightarrow>
     (case slug (manifest b) of Inl e \<Rightarrow> (Inl e, w0) | Inr sl \<Rightarrow>
     (case version (manifest b) of Inl e \<Rightarrow> (Inl e, w0) | Inr ver \<Rightarrow>
     (case description (manifest b) of Inl e \<Rightarrow> (Inl e, w0) | Inr descr \<Rightarrow>
     (case build_store_package fmt b w0 of
        (Inl e, w1) \<Rightarrow> (Inl e, w1)
      | (Inr store, w1) \<Rightarrow>
     (case build_github_package fmt b w1 of
        (Inl e, w2) \<Rightarrow> (Inl e, w2)
      | (Inr github, w2) \<Rightarrow>
          (Inr \<lparr>res_name = nm, res_slug = sl, res_version = ver, res_description = descr,
                res_store = store, res_github = github, res_output_dir = output_dir b\<rparr>,
           w2))))))))"

text \<open>
  The files that one include entry contributes, and the files of a whole package, in the
  order in which they are written; \<open>add_items_files\<close> below shows that the loop of
  \<open>_create_package\<close> writes exactly these, up to the first that cannot be read.
\<close>

definition source_files :: "world \<Rightarrow> string \<Rightarrow> string \<Rightarrow> (string list \<times> node) list" where
  "source_files w source arc =
     (case stat w source of
        None \<Rightarrow> []
      | Some (File r c) \<Rightarrow> if should_exclude source then [] else [([arc], File r c)]
      | Some (Dir cs) \<Rightarrow> walk_files arc cs)"

definition package_files :: "builder \<Rightarrow> world \<Rightarrow> string list \<Rightarrow> (string list \<times> node) list" where
  "package_files b w files =
     concat (map (\<lambda>item. source_files w (os_path_join (project_root b) item) item) files)"

fun can_read :: "node \<Rightarrow> bool" where
  "can_read (File r c) = r"
| "can_read (Dir ds) = True"

text \<open>
  For the proofs, the walk is also described step by step: the files of one directory
  (\<open>here\<close>), those below its subdirectories (\<open>sub_from\<close>) and the walk from a given
  directory (\<open>walk_from\<close>). Two trees are the same for the walk at a path (\<open>same_walk\<close>)
  if they hold the same file there, or directories with the same walk; \<open>zip_change q t t'\<close>
  says that \<open>t'\<close> differs from \<open>t\<close> only in the file at \<open>q\<close>, whose name ends in \<open>.zip\<close>.
\<close>

definition entry_files ::
  "string \<Rightarrow> string list \<times> string list \<times> (string \<times> node) list \<Rightarrow> (string list \<times> node) list" where
  "entry_files arcname step =
     (case step of (root, dirs, files) \<Rightarrow>
        map (\<lambda>(fl, n). (arcname # root @ [fl], n)) (filter (\<lambda>(fl, n). \<not> should_exclude fl) files))"

definition walk_from :: "string \<Rightarrow> string list \<Rightarrow> (string \<times> node) list \<Rightarrow> (string list \<times> node) list" where
  "walk_from arcname root cs = concat (map (entry_files arcname) (os_walk should_exclude root cs))"

definition sub_from :: "string \<Rightarrow> string list \<Rightarrow> (string \<times> node) list \<Rightarrow> (string list \<times> node) list" where
  "sub_from arcname root cs = concat (map (entry_files arcname) (walk_subdirs should_exclude root cs))"

fun is_file :: "string \<times> node \<Rightarrow> bool" where
  "is_file (f, File r c) = True"
| "is_file (d, Dir ds) = False"

definition here :: "string \<Rightarrow> string list \<Rightarrow> (string \<times> node) list \<Rightarrow> (string list \<times> node) list" where
  "here arcname root cs =
     map (\<lambda>(fl, n). (arcname # root @ [fl], n))
       (filter (\<lambda>(fl, n). \<not> should_exclude fl) (filter is_file cs))"

definition same_walk :: "node option \<Rightarrow> node option \<Rightarrow> bool" where
  "same_walk a b \<longleftrightarrow>
     (case a of
        None \<Rightarrow> b = None
      | Some (File r c) \<Rightarrow> b = Some (File r c)
      | Some (Dir cs') \<Rightarrow>
          (\<exists>cs. b = Some (Dir cs) \<and> (\<forall>arc root. walk_from arc root cs' = walk_from arc root cs)))"

definition zip_change :: "string list \<Rightarrow> node \<Rightarrow> node \<Rightarrow> bool" where
  "zip_change q t t' \<longleftrightarrow>
     q \<noteq> [] \<and> suffix ''.zip'' (last q) \<and> \<not> dir_at t q \<and> \<not> dir_at t' q
     \<and> (\<forall>p. p \<noteq> q \<longrightarrow> same_walk (lookup t' p) (lookup t p))"

text \<open>The entry names of the archive at a path, as \<open>ZipFile.namelist\<close> reads them.\<close>

definition namelist :: "world \<Rightarrow> string \<Rightarrow> string list list option" where
  "namelist w p = (case stat w p of Some (File r (Zip es)) \<Rightarrow> Some es | _ \<Rightarrow> None)"

subsection \<open>A sample project\<close>

text \<open>
  A project at \<open>/proj\<close> with a manifest, icons, sources (among them files and a directory
  that the exclusion patterns name), a readme and a licence, but no changelog and no
  privacy policy.
\<close>

definition manifest_json :: "string \<Rightarrow> json" where
  "manifest_json v =
     JObject [(''name'', JString ''My Ext''), (''version'', JString v),
              (''permissions'', JArray [JString ''tabs''])]"

definition example_tree_of :: "string \<Rightarrow> node" where
  "example_tree_of v = Dir [(''proj'', Dir [
     (''manifest.json'', File True (Json (manifest_json v))),
     (''icons'', Dir [(''icon16.png'', File True Raw), (''Thumbs.db'', File True Raw)]),
     (''src'', Dir [
        (''content.js'', File True Raw),
        (''node_modules'', Dir [(''dep'', Dir [(''big.bin'', File True Raw)])]),
        (''lib'', Dir [(''util.js'', File True Raw), (''old.zip'', File True Raw)])]),
     (''README.md'', File True Raw),
     (''LICENSE'', File True Raw)])]"

definition example_world_of :: "string \<Rightarrow> world" where
  "example_world_of v = \<lparr>fs = example_tree_of v, locked = [], stdout = []\<rparr>"

definition example_world :: world where
  "example_world = example_world_of ''1.2.3''"

definition manifest_of :: "string \<Rightarrow> manifest" where
  "manifest_of v = \<lparr>path = ''/proj/manifest.json'', data = manifest_json v\<rparr>"

definition example_builder :: builder where
  "example_builder = \<lparr>project_root = ''/proj'', manifest = manifest_of ''1.2.3''\<rparr>"

definition example_src :: "(string \<times> node) list" where
  "example_src =
     [(''content.js'', File True Raw),
      (''node_modules'', Dir [(''dep'', Dir [(''big.bin'', File True Raw)])]),
      (''lib'', Dir [(''util.js'', File True Raw), (''old.zip'', File True Raw)])]"

text \<open>
  Two more states of the sample project: one whose store archive exists and is held open by
  another program, and one with a source file that cannot be read.
\<close>

definition locked_world :: world where
  "locked_world =
     \<lparr>fs = Dir [(''proj'', Dir [
        (''manifest.json'', File True (Json (manifest_json ''1.2.3''))),
        (''src'', Dir [(''content.js'', File True Raw)]),
        (''releases'', Dir [(''my-ext-v1.2.3-store.zip'', File True (Zip [[''old.js'']]))])])],
      locked = [[''proj'', ''releases'', ''my-ext-v1.2.3-store.zip'']],
      stdout = []\<rparr>"


text \<open>The same kind of project, kept below a directory named \<open>docs\<close>.\<close>

definition docs_world :: world where
  "docs_world =
     \<lparr>fs = Dir [(''home'', Dir [(''u'', Dir [(''docs'', Dir [(''ext'', Dir [
        (''manifest.json'', File True (Json (manifest_json ''1.2.3''))),
        (''src'', Dir [(''content.js'', File True Raw)]),
        (''README.md'', File True Raw),
        (''releases'', Dir [])])])])])],
      locked = [],
      stdout = []\<rparr>"

definition docs_builder :: builder where
  "docs_builder =
     \<lparr>project_root = ''/home/u/docs/ext'',
      manifest = \<lparr>path = ''/home/u/docs/ext/manifest.json'', data = manifest_json ''1.2.3''\<rparr>\<rparr>"

definition manifest0 :: manifest where
  "manifest0 = \<lparr>path = ''/proj/manifest.json'',
     data = JObject [(''name'', JString ''  My  Cool_Ext!! v2 ''), (''version'', JString ''1.2'')]\<rparr>"

section \<open>Properties\<close>

subsection \<open>The slug\<close>

lemma re_sub_chars: "c \<in> set (re_sub s) \<Longrightarrow> is_lower_alnum c \<or> c = CHR ''-''"
  by (induction s rule: re_sub.induct) (auto split: if_splits)

lemma re_sub_hd: "re_sub s \<noteq> [] \<Longrightarrow> hd (re_sub s) = CHR ''-'' \<Longrightarrow> \<not> is_lower_alnum (hd s)"
  by (cases s) (auto simp: is_lower_alnum_def split: if_splits)

lemma no_double_sublist: "no_double s \<longleftrightarrow> \<not> sublist ''--'' s"
  by (induction s rule: no_double.induct) (auto simp: sublist_Cons_right)

lemma re_sub_no_double: "no_double (re_sub s)"
proof (induction s rule: re_sub.induct)
  case 1 show ?case by simp
next
  case (2 c cs)
  show ?case
  proof (cases "is_lower_alnum c")
    case True
    with 2 show ?thesis by (cases "re_sub cs") (auto simp: is_lower_alnum_def)
  next
    case False
    let ?t = "dropWhile (\<lambda>x. \<not> is_lower_alnum x) cs"
    have "no_double (re_sub ?t)" using 2 False by simp
    moreover have "re_sub ?t = [] \<or> hd (re_sub ?t) \<noteq> CHR ''-''"
    proof (cases "?t = []")
      case True
      then have "re_sub ?t = []" by (simp only: re_sub.simps)
      then show ?thesis by blast
    next
      case F: False
      then have "is_lower_alnum (hd ?t)" using hd_dropWhile[of "\<lambda>x. \<not> is_lower_alnum x" cs] by simp
      then show ?thesis using re_sub_hd[of ?t] by blast
    qed
    ultimately show ?thesis using False by (cases "re_sub ?t") auto
  qed
qed

lemma strip_sublist: "sublist (strip P s) s"
proof -
  have "prefix (rev (dropWhile P (rev t))) t" for t
    by (metis suffix_dropWhile suffix_to_prefix rev_rev_ident)
  then have "prefix (strip P s) (dropWhile P s)" unfolding strip_def .
  moreover have "suffix (dropWhile P s) s" by (rule suffix_dropWhile)
  ultimately show ?thesis
    by (meson prefix_imp_sublist suffix_imp_sublist sublist_order.order.trans)
qed

lemma strip_ends: "strip P s \<noteq> [] \<Longrightarrow> \<not> P (hd (strip P s)) \<and> \<not> P (last (strip P s))"
proof -
  assume ne: "strip P s \<noteq> []"
  let ?t = "dropWhile P s"
  let ?u = "dropWhile P (rev ?t)"
  have u: "?u \<noteq> []" using ne by (simp add: strip_def)
  have t: "?t \<noteq> []"
  proof
    assume "?t = []"
    then have "?u = dropWhile P (rev [])" by (simp only:)
    with u show False by simp
  qed
  have hu: "\<not> P (hd ?u)" using u by (rule hd_dropWhile)
  have ht: "\<not> P (hd ?t)" using t by (rule hd_dropWhile)
  have "last (strip P s) = hd ?u" using u by (simp add: strip_def last_rev)
  moreover have "hd (strip P s) = last ?u" using u by (simp add: strip_def hd_rev)
  moreover have "last ?u = last (rev ?t)" using u by (metis takeWhile_dropWhile_id last_appendR)
  moreover have "last (rev ?t) = hd ?t" using t by (simp add: last_rev)
  ultimately show ?thesis using hu ht by simp
qed

lemma strip_id: "(s \<noteq> [] \<Longrightarrow> \<not> P (hd s) \<and> \<not> P (last s)) \<Longrightarrow> strip P s = s"
proof (cases "s = []")
  case True
  then show ?thesis by (simp add: strip_def)
next
  case False
  assume "s \<noteq> [] \<Longrightarrow> \<not> P (hd s) \<and> \<not> P (last s)"
  with False have h: "\<not> P (hd s)" and l: "\<not> P (last s)" by simp_all
  have "dropWhile P s = s" using False h by (cases s) auto
  moreover have "dropWhile P (rev s) = rev s" using False l by (cases "rev s") (auto simp: last_rev[symmetric] simp del: last_rev)
  ultimately show ?thesis by (simp add: strip_def)
qed

lemma lower_char_id: "is_lower_alnum c \<or> c = CHR ''-'' \<Longrightarrow> lower_char c = c"
  by (auto simp: is_lower_alnum_def lower_char_def)

lemma re_sub_id:
  "(\<forall>c\<in>set s. is_lower_alnum c \<or> c = CHR ''-'') \<Longrightarrow> no_double s \<Longrightarrow> re_sub s = s"
proof (induction s rule: re_sub.induct)
  case 1 show ?case by simp
next
  case (2 c cs)
  show ?case
  proof (cases "is_lower_alnum c")
    case True
    with 2 show ?thesis by (cases cs) auto
  next
    case False
    then have c: "c = CHR ''-''" using 2(3) by simp
    have "dropWhile (\<lambda>x. \<not> is_lower_alnum x) cs = cs"
      using 2(3,4) c by (cases cs) auto
    moreover have "no_double cs" using 2(4) by (cases cs) auto
    ultimately show ?thesis using 2 False c by simp
  qed
qed

lemma slugify_is_slug:
  "(\<forall>c\<in>set (slugify n). is_lower_alnum c \<or> c = CHR ''-'') \<and> no_double (slugify n)
   \<and> (slugify n \<noteq> [] \<longrightarrow> hd (slugify n) \<noteq> CHR ''-'' \<and> last (slugify n) \<noteq> CHR ''-'')"
proof -
  let ?r = "re_sub (lower n)"
  have sub: "sublist (slugify n) ?r" unfolding slugify_def by (rule strip_sublist)
  then have "set (slugify n) \<subseteq> set ?r" by (rule set_mono_sublist)
  then have chars: "\<forall>c\<in>set (slugify n). is_lower_alnum c \<or> c = CHR ''-''"
    using re_sub_chars by blast
  have "\<not> sublist ''--'' ?r" using re_sub_no_double no_double_sublist by blast
  then have "\<not> sublist ''--'' (slugify n)" using sub sublist_order.order.trans by blast
  then have nd: "no_double (slugify n)" by (simp add: no_double_sublist)
  have "slugify n \<noteq> [] \<longrightarrow> hd (slugify n) \<noteq> CHR ''-'' \<and> last (slugify n) \<noteq> CHR ''-''"
    unfolding slugify_def using strip_ends[of "\<lambda>c. c = CHR ''-''" ?r] by blast
  with chars nd show ?thesis by blast
qed

text \<open>
  Claim C3. For every name, the slug of a slug is the slug itself, and a slug consists of
  lowercase letters, digits and hyphens only, does not begin or end with a hyphen and has
  no two hyphens in a row. The property \<open>slug\<close> of a manifest whose name is the string
  \<open>n\<close> returns \<open>slugify n\<close>.
\<close>

theorem slug_idempotent:
  "slugify (slugify n) = slugify n
   \<and> (\<forall>c\<in>set (slugify n). is_lower_alnum c \<or> c = CHR ''-'')
   \<and> \<not> prefix ''-'' (slugify n) \<and> \<not> suffix ''-'' (slugify n)
   \<and> \<not> sublist ''--'' (slugify n)
   \<and> (name m = Inr (JString n) \<longrightarrow> slug m = Inr (slugify n))"
proof -
  let ?s = "slugify n"
  have chars: "\<forall>c\<in>set ?s. is_lower_alnum c \<or> c = CHR ''-''"
    and nd: "no_double ?s"
    and ends: "?s \<noteq> [] \<longrightarrow> hd ?s \<noteq> CHR ''-'' \<and> last ?s \<noteq> CHR ''-''"
    using slugify_is_slug[of n] by blast+
  have "lower ?s = ?s" using chars by (simp add: lower_def map_idI lower_char_id)
  moreover have "re_sub ?s = ?s" using chars nd by (rule re_sub_id)
  moreover have "strip (\<lambda>c. c = CHR ''-'') ?s = ?s" using ends by (intro strip_id) blast
  ultimately have idem: "slugify ?s = ?s" by (simp add: slugify_def)
  have p: "\<not> prefix ''-'' ?s" using ends by (cases ?s) auto
  have "\<not> suffix ''-'' ?s" using ends by (auto simp: suffix_def)
  moreover have "\<not> sublist ''--'' ?s" using nd by (simp add: no_double_sublist)
  moreover have "name m = Inr (JString n) \<longrightarrow> slug m = Inr ?s" by (simp add: slug_def)
  ultimately show ?thesis using idem chars p by blast
qed

theorem slug_idempotent_witness:
  "name manifest0 = Inr (JString ''  My  Cool_Ext!! v2 '')
   \<and> slug manifest0 = Inr ''my-cool-ext-v2''
   \<and> slugify ''my-cool-ext-v2'' = ''my-cool-ext-v2''
   \<and> CHR ''-'' \<in> set (slugify ''  My  Cool_Ext!! v2 '')"
proof -
  have n: "name manifest0 = Inr (JString ''  My  Cool_Ext!! v2 '')"
    by (simp add: name_def dict_get_def manifest0_def)
  have v: "slugify ''  My  Cool_Ext!! v2 '' = ''my-cool-ext-v2''"
    by code_simp
  show ?thesis
    using slug_idempotent[of "''  My  Cool_Ext!! v2 ''" manifest0] n v by simp
qed

subsection \<open>Version bump\<close>

lemma pad_parts_eq: "pad_parts ps = ps @ replicate (3 - length ps) ''0''"
proof (induction ps rule: pad_parts.induct)
  case (1 parts)
  show ?case
  proof (cases "length parts < 3")
    case True
    then have "3 - length parts = Suc (3 - length (parts @ [''0'']))" by simp
    then have "parts @ replicate (3 - length parts) ''0''
        = (parts @ [''0'']) @ replicate (3 - length (parts @ [''0''])) ''0''"
      by (simp only: replicate_Suc append_assoc append_Cons append_Nil)
    with 1 True show ?thesis by (subst pad_parts.simps) simp
  next
    case False
    then show ?thesis by (subst pad_parts.simps) simp
  qed
qed

lemma length_pad_parts: "3 \<le> length (pad_parts ps)"
proof -
  have "3 \<le> length ps + (3 - length ps)" by arith
  then show ?thesis by (simp only: pad_parts_eq length_append length_replicate)
qed

lemma digit_char_is_digit: "n < 10 \<Longrightarrow> is_digit (digit_char n)"
  unfolding is_digit_def digit_char_def by (rule nth_mem) simp

lemma digits_are_digits: "c \<in> set (digits n) \<Longrightarrow> is_digit c"
proof (induction n rule: digits.induct)
  case (1 n)
  show ?case
  proof (cases "n < 10")
    case True
    then have "digits n = [digit_char n]" by (subst digits.simps) simp
    with 1(2) True show ?thesis by (simp add: digit_char_is_digit)
  next
    case False
    then have "digits n = digits (n div 10) @ [digit_char (n mod 10)]"
      by (subst digits.simps) simp
    with 1(2) have "c \<in> set (digits (n div 10)) \<or> c = digit_char (n mod 10)" by auto
    then show ?thesis
    proof
      assume "c \<in> set (digits (n div 10))"
      with 1(1) False show ?thesis by blast
    next
      assume "c = digit_char (n mod 10)"
      then show ?thesis by (simp add: digit_char_is_digit)
    qed
  qed
qed

lemma py_str_no_dot: "CHR ''.'' \<notin> set (py_str i)"
proof
  assume "CHR ''.'' \<in> set (py_str i)"
  then have "CHR ''.'' \<in> set (digits (nat (- i))) \<or> CHR ''.'' \<in> set (digits (nat i))"
    by (auto simp: py_str_def split: if_splits)
  then have "is_digit CHR ''.''" using digits_are_digits by blast
  then show False by (simp add: is_digit_def)
qed

lemma split_sep_single: "sep \<notin> set a \<Longrightarrow> split_sep sep a = [a]"
  by (induction a) (auto simp: Let_def)

lemma split_sep_append: "sep \<notin> set a \<Longrightarrow> split_sep sep (a @ sep # b) = a # split_sep sep b"
  by (induction a) (auto simp: Let_def)

lemma split_format_version:
  "split_sep CHR ''.'' (format_version (a, b, c)) = [py_str a, py_str b, py_str c]"
proof -
  have "format_version (a, b, c) = py_str a @ CHR ''.'' # (py_str b @ CHR ''.'' # py_str c)"
    by (simp add: format_version_def)
  then show ?thesis
    by (simp only: split_sep_append[OF py_str_no_dot] split_sep_single[OF py_str_no_dot])
qed

lemma save_ok: "fst (open_w w (path m)) = Inr q \<Longrightarrow> fst (save m w) = Inr ()"
  by (cases "open_w w (path m)") (auto simp: save_def)

lemma bump_version_unfold:
  assumes "version m = Inr (JString v)"
    and "py_int (pad_parts (split_sep CHR ''.'' v) ! 0) = Some major"
    and "py_int (pad_parts (split_sep CHR ''.'' v) ! 1) = Some minor"
    and "py_int (pad_parts (split_sep CHR ''.'' v) ! 2) = Some patch"
    and "fst (open_w w (path m)) = Inr q"
  shows "fst (bump_version m w bump_type)
           = Inr (v, format_version (bump bump_type (major, minor, patch)))"
proof -
  obtain kvs where kvs: "data m = JObject kvs"
    using assms(1) by (cases "data m") (auto simp: version_def dict_get_def)
  let ?new = "format_version (bump bump_type (major, minor, patch))"
  let ?m' = "m\<lparr>data := JObject (AList.update ''version'' (JString ?new) kvs)\<rparr>"
  have "fst (save ?m' w) = Inr ()" using assms(5) save_ok[of w ?m' q] by simp
  then obtain w1 where "save ?m' w = (Inr (), w1)" by (cases "save ?m' w") auto
  then have "set_version m w (JString ?new) = (Inr (), ?m', w1)"
    by (simp add: set_version_def kvs Let_def)
  then show ?thesis using assms(1-4)
    by (simp add: bump_version_def Let_def)
qed

lemma bump_version_value_error:
  assumes "version m = Inr (JString v)"
    and "i < 3" and "py_int (pad_parts (split_sep CHR ''.'' v) ! i) = None"
  shows "bump_version m w bump_type = (Inl ValueError, m, w)"
proof -
  from assms(2) have "i = 0 \<or> i = 1 \<or> i = 2" by arith
  with assms(3) have "py_int (pad_parts (split_sep CHR ''.'' v) ! 0) = None
      \<or> py_int (pad_parts (split_sep CHR ''.'' v) ! 1) = None
      \<or> py_int (pad_parts (split_sep CHR ''.'' v) ! 2) = None" by auto
  then show ?thesis using assms(1)
    by (auto simp: bump_version_def Let_def split: option.splits)
qed

lemma py_str_0: "py_str 0 = ''0''"
  by (simp add: py_str_def digits.simps digit_char_def)

text \<open>
  Claim C1. Let the version of the manifest be the string \<open>v\<close>, let \<open>parts\<close> be \<open>v\<close> split
  at the dots and padded on the right with \<open>'0'\<close> up to three components, let the first
  three of them read as the integers \<open>major\<close>, \<open>minor\<close> and \<open>patch\<close>, and let the manifest file
  be writable. Then \<open>bump_version\<close> returns the pair of \<open>v\<close> and the new version, which is
  \<open>major + 1\<close>, 0, 0 for \<open>'major'\<close>; \<open>major\<close>, \<open>minor + 1\<close>, 0 for \<open>'minor'\<close>; and \<open>major\<close>, \<open>minor\<close>,
  \<open>patch + 1\<close> for \<open>'patch'\<close>; whatever the kind of bump and the number of components of
  \<open>v\<close>, the new version has exactly three components.
\<close>

theorem bump_version_rules:
  assumes "version m = Inr (JString v)"
    and "parts = split_sep CHR ''.'' v @ replicate (3 - length (split_sep CHR ''.'' v)) ''0''"
    and "py_int (parts ! 0) = Some major"
    and "py_int (parts ! 1) = Some minor"
    and "py_int (parts ! 2) = Some patch"
    and "fst (open_w w (path m)) = Inr q"
  shows "pad_parts (split_sep CHR ''.'' v) = parts
    \<and> fst (bump_version m w ''major'') = Inr (v, py_str (major + 1) @ ''.0.0'')
    \<and> fst (bump_version m w ''minor'') = Inr (v, py_str major @ ''.'' @ py_str (minor + 1) @ ''.0'')
    \<and> fst (bump_version m w ''patch'')
         = Inr (v, py_str major @ ''.'' @ py_str minor @ ''.'' @ py_str (patch + 1))
    \<and> (\<exists>new. fst (bump_version m w bump_type) = Inr (v, new)
           \<and> length (split_sep CHR ''.'' new) = 3)"
proof -
  have p: "pad_parts (split_sep CHR ''.'' v) = parts"
    using assms(2) by (simp add: pad_parts_eq)
  have u: "fst (bump_version m w bt) = Inr (v, format_version (bump bt (major, minor, patch)))"
    for bt
    using assms bump_version_unfold[of m v major minor patch w q bt] p by simp
  have "fst (bump_version m w ''major'') = Inr (v, py_str (major + 1) @ ''.0.0'')"
    using u[of "''major''"] by (simp add: bump_def format_version_def py_str_0)
  moreover have "fst (bump_version m w ''minor'')
      = Inr (v, py_str major @ ''.'' @ py_str (minor + 1) @ ''.0'')"
    using u[of "''minor''"] by (simp add: bump_def format_version_def py_str_0)
  moreover have "fst (bump_version m w ''patch'')
      = Inr (v, py_str major @ ''.'' @ py_str minor @ ''.'' @ py_str (patch + 1))"
    using u[of "''patch''"] by (simp add: bump_def format_version_def)
  moreover have "\<exists>new. fst (bump_version m w bump_type) = Inr (v, new)
      \<and> length (split_sep CHR ''.'' new) = 3"
  proof -
    obtain a b c where "bump bump_type (major, minor, patch) = (a, b, c)"
      by (cases "bump bump_type (major, minor, patch)") auto
    then show ?thesis using u[of bump_type] split_format_version[of a b c] by simp
  qed
  ultimately show ?thesis using p by blast
qed

lemma ex_open: "fst (open_w example_world ''/proj/manifest.json'') = Inr [''proj'', ''manifest.json'']"
  by code_simp

lemma ex_version: "version (manifest_of v) = Inr (JString v)"
  by (simp add: version_def dict_get_def manifest_of_def manifest_json_def)

theorem bump_version_rules_witness:
  "Manifest (example_world_of ''1.2'') ''/proj/manifest.json'' = Inr (manifest_of ''1.2'')
   \<and> fst (bump_version (manifest_of ''1.2'') (example_world_of ''1.2'') ''patch'')
       = Inr (''1.2'', ''1.2.1'')
   \<and> fst (bump_version (manifest_of ''1.2.3'') example_world ''major'') = Inr (''1.2.3'', ''2.0.0'')
   \<and> fst (bump_version (manifest_of ''1.2.3'') example_world ''minor'') = Inr (''1.2.3'', ''1.3.0'')
   \<and> fst (bump_version (manifest_of ''1.2.3'') example_world ''patch'') = Inr (''1.2.3'', ''1.2.4'')"
proof -
  have l: "Manifest (example_world_of ''1.2'') ''/proj/manifest.json'' = Inr (manifest_of ''1.2'')"
    by code_simp
  have "fst (open_w (example_world_of ''1.2'') ''/proj/manifest.json'')
      = Inr [''proj'', ''manifest.json'']" by code_simp
  then have o2: "fst (open_w (example_world_of ''1.2'') (path (manifest_of ''1.2'')))
      = Inr [''proj'', ''manifest.json'']" by (simp add: manifest_of_def)
  have o: "fst (open_w example_world (path (manifest_of ''1.2.3''))) = Inr [''proj'', ''manifest.json'']"
    using ex_open by (simp add: manifest_of_def)
  have p2: "[''1'', ''2'', ''0'']
      = split_sep CHR ''.'' ''1.2'' @ replicate (3 - length (split_sep CHR ''.'' ''1.2'')) ''0''"
    by code_simp
  have p3: "[''1'', ''2'', ''3'']
      = split_sep CHR ''.'' ''1.2.3'' @ replicate (3 - length (split_sep CHR ''.'' ''1.2.3'')) ''0''"
    by code_simp
  have i0: "py_int ([''1'', ''2'', ''0''] ! 0) = Some 1" "py_int ([''1'', ''2'', ''0''] ! 1) = Some 2"
    "py_int ([''1'', ''2'', ''0''] ! 2) = Some 0"
    by code_simp+
  have i3: "py_int ([''1'', ''2'', ''3''] ! 0) = Some 1" "py_int ([''1'', ''2'', ''3''] ! 1) = Some 2"
    "py_int ([''1'', ''2'', ''3''] ! 2) = Some 3"
    by code_simp+
  have s: "py_str 1 @ ''.'' @ py_str 2 @ ''.'' @ py_str (0 + 1) = ''1.2.1''"
    "py_str (1 + 1) @ ''.0.0'' = ''2.0.0''"
    "py_str 1 @ ''.'' @ py_str (2 + 1) @ ''.0'' = ''1.3.0''"
    "py_str 1 @ ''.'' @ py_str 2 @ ''.'' @ py_str (3 + 1) = ''1.2.4''"
    by code_simp+
  show ?thesis
    using l bump_version_rules[OF ex_version p2 i0 o2] bump_version_rules[OF ex_version p3 i3 o]
    unfolding s by blast
qed

lemma scan_digits_chars:
  "scan_digits acc s = Some n \<Longrightarrow> c \<in> set s \<Longrightarrow> is_digit c \<or> c = CHR ''_''"
  by (induction acc s rule: scan_digits.induct) (auto split: if_splits)

lemma parse_nat_chars: "parse_nat s = Some n \<Longrightarrow> c \<in> set s \<Longrightarrow> is_digit c \<or> c = CHR ''_''"
  by (cases s) (auto simp: parse_nat_def split: if_splits dest: scan_digits_chars)

lemma in_dropWhile: "c \<in> set s \<Longrightarrow> \<not> P c \<Longrightarrow> c \<in> set (dropWhile P s)"
  by (induction s) auto

lemma in_strip: "c \<in> set s \<Longrightarrow> \<not> P c \<Longrightarrow> c \<in> set (strip P s)"
  unfolding strip_def by (simp add: in_dropWhile)

lemma py_int_rejects:
  assumes "c \<in> set s" and "\<not> is_digit c" and "\<not> is_space c" and "c \<notin> set ''+-_''"
  shows "py_int s = None"
proof (rule ccontr)
  assume "py_int s \<noteq> None"
  let ?t = "strip is_space s"
  have ct: "c \<in> set ?t" using assms(1,3) by (rule in_strip)
  then have ne: "?t \<noteq> []" by auto
  have tl: "c \<in> set (tl ?t)" if "hd ?t = CHR ''-'' \<or> hd ?t = CHR ''+''"
    using ct that assms(4) ne by (cases ?t) auto
  from \<open>py_int s \<noteq> None\<close> consider n where "parse_nat (tl ?t) = Some n" "hd ?t = CHR ''-'' \<or> hd ?t = CHR ''+''"
    | n where "parse_nat ?t = Some n"
    by (auto simp: py_int_def Let_def split: if_splits)
  then show False
  proof cases
    case 1
    then show False using parse_nat_chars[OF 1(1) tl] assms(2,4) by auto
  next
    case 2
    then show False using parse_nat_chars[OF 2 ct] assms(2,4) by auto
  qed
qed

lemma underscore_no_digit: "\<not> is_digit CHR ''_''"
  by (simp add: is_digit_def)

lemma scan_digits_ok:
  "scan_digits acc cs \<noteq> None \<longleftrightarrow>
     (\<forall>c\<in>set cs. is_digit c \<or> c = CHR ''_'') \<and> (cs \<noteq> [] \<longrightarrow> is_digit (last cs))
     \<and> \<not> sublist ''__'' cs"
proof (induction acc cs rule: scan_digits.induct)
  case (1 acc)
  show ?case by simp
next
  case (2 acc c)
  show ?case using underscore_no_digit by (auto simp: sublist_Cons_right)
next
  case (3 acc c d cs)
  show ?case
  proof (cases "is_digit c")
    case True
    then have "c \<noteq> CHR ''_''" using underscore_no_digit by auto
    then show ?thesis using 3(1)[OF True] True by (auto simp: sublist_Cons_right)
  next
    case False
    show ?thesis
    proof (cases "c = CHR ''_'' \<and> is_digit d")
      case True
      then have d: "d \<noteq> CHR ''_''" using underscore_no_digit by auto
      show ?thesis using 3(2)[OF False True] False True d
        by (auto simp: sublist_Cons_right)
    next
      case F: False
      then show ?thesis using False by (auto simp: sublist_Cons_right)
    qed
  qed
qed

lemma parse_nat_ok: "parse_nat u \<noteq> None \<longleftrightarrow> digit_string u"
proof (cases u)
  case Nil
  then show ?thesis by (simp add: parse_nat_def digit_string_def)
next
  case (Cons c cs)
  show ?thesis
  proof (cases "is_digit c")
    case False
    then show ?thesis using Cons by (simp add: parse_nat_def digit_string_def)
  next
    case True
    then have "c \<noteq> CHR ''_''" using underscore_no_digit by auto
    then show ?thesis using Cons True scan_digits_ok[of "digit_val c" cs]
      by (auto simp: parse_nat_def digit_string_def sublist_Cons_right)
  qed
qed

lemma py_int_numeric: "py_int s \<noteq> None \<longleftrightarrow> numeric s"
  using parse_nat_ok[of "strip is_space s"] parse_nat_ok[of "tl (strip is_space s)"]
  by (auto simp: py_int_def numeric_def Let_def)

text \<open>
  Claim C5, amended. Take the version split at the dots and padded to three components.
  If one of the first three is not a string that \<open>int\<close> reads (\<open>numeric\<close>), then
  \<open>bump_version\<close> raises \<open>ValueError\<close>, and neither the manifest object nor the file tree
  is changed. If all three are and the manifest file is writable, the bump succeeds and
  the new version is made of these three alone, whatever components follow them.
\<close>

theorem bump_version_non_numeric:
  assumes "version m = Inr (JString v)"
    and "parts = split_sep CHR ''.'' v @ replicate (3 - length (split_sep CHR ''.'' v)) ''0''"
  shows "((\<exists>i<3. \<not> numeric (parts ! i)) \<longrightarrow>
            bump_version m w bump_type = (Inl ValueError, m, w))
    \<and> ((\<forall>i<3. numeric (parts ! i)) \<and> fst (open_w w (path m)) = Inr q \<longrightarrow>
          (\<exists>major minor patch.
              py_int (parts ! 0) = Some major \<and> py_int (parts ! 1) = Some minor
              \<and> py_int (parts ! 2) = Some patch
              \<and> fst (bump_version m w bump_type)
                  = Inr (v, format_version (bump bump_type (major, minor, patch)))))"
proof -
  have p: "pad_parts (split_sep CHR ''.'' v) = parts" using assms(2) by (simp add: pad_parts_eq)
  have a: "bump_version m w bump_type = (Inl ValueError, m, w)" if "\<exists>i<3. \<not> numeric (parts ! i)"
  proof -
    from that obtain i where "i < 3" "py_int (parts ! i) = None" using py_int_numeric by blast
    then show ?thesis using bump_version_value_error[OF assms(1), of i w bump_type] p by simp
  qed
  have b: "\<exists>major minor patch.
              py_int (parts ! 0) = Some major \<and> py_int (parts ! 1) = Some minor
              \<and> py_int (parts ! 2) = Some patch
              \<and> fst (bump_version m w bump_type)
                  = Inr (v, format_version (bump bump_type (major, minor, patch)))"
    if n: "\<forall>i<3. numeric (parts ! i)" and o: "fst (open_w w (path m)) = Inr q"
  proof -
    from n have "py_int (parts ! 0) \<noteq> None" "py_int (parts ! 1) \<noteq> None" "py_int (parts ! 2) \<noteq> None"
      using py_int_numeric by auto
    then obtain major minor patch where i: "py_int (parts ! 0) = Some major"
      "py_int (parts ! 1) = Some minor" "py_int (parts ! 2) = Some patch" by auto
    then have "fst (bump_version m w bump_type)
        = Inr (v, format_version (bump bump_type (major, minor, patch)))"
      using bump_version_unfold[OF assms(1) _ _ _ o, of major minor patch bump_type] p by simp
    with i show ?thesis by blast
  qed
  from a b show ?thesis by blast
qed

text \<open>
  Claim C5 as stated fails, in two ways. Only the first three components are converted: the
  version \<open>1.2.3.x\<close> is bumped to \<open>1.2.4\<close> and written to the manifest file. And \<open>int\<close>
  reads more than digits: the components of \<open>1_0.-2. 7\<close> hold an underscore, a sign and a
  blank, and the version is bumped to \<open>10.-2.8\<close> and written.
\<close>

theorem bump_version_non_numeric_counterexample:
  "Manifest (example_world_of ''1.2.3.x'') ''/proj/manifest.json'' = Inr (manifest_of ''1.2.3.x'')
   \<and> split_sep CHR ''.'' ''1.2.3.x'' = [''1'', ''2'', ''3'', ''x'']
   \<and> \<not> is_digit CHR ''x''
   \<and> fst (bump_version (manifest_of ''1.2.3.x'') (example_world_of ''1.2.3.x'') ''patch'')
       = Inr (''1.2.3.x'', ''1.2.4'')
   \<and> load (snd (snd (bump_version (manifest_of ''1.2.3.x'') (example_world_of ''1.2.3.x'')
             ''patch''))) ''/proj/manifest.json''
       = Inr (manifest_json ''1.2.4'')
   \<and> Manifest (example_world_of ''1_0.-2. 7'') ''/proj/manifest.json''
       = Inr (manifest_of ''1_0.-2. 7'')
   \<and> split_sep CHR ''.'' ''1_0.-2. 7'' = [''1_0'', ''-2'', '' 7'']
   \<and> \<not> is_digit CHR ''_'' \<and> \<not> is_digit CHR ''-'' \<and> \<not> is_digit CHR '' ''
   \<and> fst (bump_version (manifest_of ''1_0.-2. 7'') (example_world_of ''1_0.-2. 7'') ''patch'')
       = Inr (''1_0.-2. 7'', ''10.-2.8'')
   \<and> load (snd (snd (bump_version (manifest_of ''1_0.-2. 7'') (example_world_of ''1_0.-2. 7'')
             ''patch''))) ''/proj/manifest.json''
       = Inr (manifest_json ''10.-2.8'')"
  by code_simp

theorem bump_version_non_numeric_witness:
  "\<not> numeric ''x''
   \<and> bump_version (manifest_of ''1.x.3'') (example_world_of ''1.x.3'') ''patch''
       = (Inl ValueError, manifest_of ''1.x.3'', example_world_of ''1.x.3'')
   \<and> numeric ''1_0'' \<and> numeric ''-2'' \<and> numeric '' 7''
   \<and> fst (bump_version (manifest_of ''1_0.-2. 7.x'') (example_world_of ''1_0.-2. 7.x'') ''minor'')
       = Inr (''1_0.-2. 7.x'', ''10.-1.0'')"
proof -
  have p1: "[''1'', ''x'', ''3'']
      = split_sep CHR ''.'' ''1.x.3'' @ replicate (3 - length (split_sep CHR ''.'' ''1.x.3'')) ''0''"
    by code_simp
  have n1: "\<not> numeric ''x''" by code_simp
  have e1: "\<exists>i<3. \<not> numeric ([''1'', ''x'', ''3''] ! i)"
    using n1 by (intro exI[of _ 1]) simp
  have a: "bump_version (manifest_of ''1.x.3'') (example_world_of ''1.x.3'') ''patch''
       = (Inl ValueError, manifest_of ''1.x.3'', example_world_of ''1.x.3'')"
    using bump_version_non_numeric[OF ex_version p1] e1 by blast
  have p2: "[''1_0'', ''-2'', '' 7'', ''x'']
      = split_sep CHR ''.'' ''1_0.-2. 7.x''
        @ replicate (3 - length (split_sep CHR ''.'' ''1_0.-2. 7.x'')) ''0''"
    by code_simp
  have n2: "numeric ''1_0''" "numeric ''-2''" "numeric '' 7''" by code_simp+
  have a2: "\<forall>i<3. numeric ([''1_0'', ''-2'', '' 7'', ''x''] ! i)"
  proof (intro allI impI)
    fix i :: nat assume "i < 3"
    then have "i = 0 \<or> i = 1 \<or> i = 2" by arith
    then show "numeric ([''1_0'', ''-2'', '' 7'', ''x''] ! i)" using n2 by auto
  qed
  have "fst (open_w (example_world_of ''1_0.-2. 7.x'') ''/proj/manifest.json'')
      = Inr [''proj'', ''manifest.json'']" by code_simp
  then have o: "fst (open_w (example_world_of ''1_0.-2. 7.x'') (path (manifest_of ''1_0.-2. 7.x'')))
      = Inr [''proj'', ''manifest.json'']" by (simp add: manifest_of_def)
  have i2: "py_int ([''1_0'', ''-2'', '' 7'', ''x''] ! 0) = Some 10"
    "py_int ([''1_0'', ''-2'', '' 7'', ''x''] ! 1) = Some (- 2)"
    "py_int ([''1_0'', ''-2'', '' 7'', ''x''] ! 2) = Some 7" by code_simp+
  have f: "format_version (bump ''minor'' (10, - 2, 7)) = ''10.-1.0''" by code_simp
  from bump_version_non_numeric[OF ex_version p2,
      where q = "[''proj'', ''manifest.json'']" and bump_type = "''minor''"
        and w = "example_world_of ''1_0.-2. 7.x''"] a2 o
  obtain major minor patch where "py_int ([''1_0'', ''-2'', '' 7'', ''x''] ! 0) = Some major"
    "py_int ([''1_0'', ''-2'', '' 7'', ''x''] ! 1) = Some minor"
    "py_int ([''1_0'', ''-2'', '' 7'', ''x''] ! 2) = Some patch"
    "fst (bump_version (manifest_of ''1_0.-2. 7.x'') (example_world_of ''1_0.-2. 7.x'') ''minor'')
       = Inr (''1_0.-2. 7.x'', format_version (bump ''minor'' (major, minor, patch)))"
    by blast
  then have "fst (bump_version (manifest_of ''1_0.-2. 7.x'') (example_world_of ''1_0.-2. 7.x'') ''minor'')
       = Inr (''1_0.-2. 7.x'', ''10.-1.0'')" using i2 f by simp
  with n1 a n2 show ?thesis by blast
qed

lemma bump_other:
  "bump_type \<noteq> ''major'' \<Longrightarrow> bump_type \<noteq> ''minor'' \<Longrightarrow> bump bump_type = bump ''patch''"
  by (auto simp: bump_def fun_eq_iff)

text \<open>
  Claim C10. A bump type other than \<open>'major'\<close> and \<open>'minor'\<close>, whatever string it is, is
  treated as \<open>'patch'\<close>: the call behaves as the patch bump does, and where the version can
  be read and written it increments the patch number and keeps the other two.
\<close>

theorem bump_version_unknown_kind:
  assumes "bump_type \<noteq> ''major''" and "bump_type \<noteq> ''minor''"
    and "version m = Inr (JString v)"
    and "parts = split_sep CHR ''.'' v @ replicate (3 - length (split_sep CHR ''.'' v)) ''0''"
    and "py_int (parts ! 0) = Some major"
    and "py_int (parts ! 1) = Some minor"
    and "py_int (parts ! 2) = Some patch"
    and "fst (open_w w (path m)) = Inr q"
  shows "bump_version m w bump_type = bump_version m w ''patch''
    \<and> fst (bump_version m w bump_type)
         = Inr (v, py_str major @ ''.'' @ py_str minor @ ''.'' @ py_str (patch + 1))"
proof -
  have b: "bump bump_type = bump ''patch''" using assms(1,2) by (rule bump_other)
  have "bump_version m w bump_type = bump_version m w ''patch''"
    unfolding bump_version_def b ..
  moreover have "fst (bump_version m w bump_type)
      = Inr (v, format_version (bump bump_type (major, minor, patch)))"
    using assms(3-8) bump_version_unfold[of m v major minor patch w q bump_type]
    by (simp add: pad_parts_eq)
  ultimately show ?thesis by (simp add: b bump_def format_version_def)
qed

theorem bump_version_unknown_kind_witness:
  "bump_version (manifest_of ''1.2.3'') example_world ''bogus''
     = bump_version (manifest_of ''1.2.3'') example_world ''patch''
   \<and> fst (bump_version (manifest_of ''1.2.3'') example_world ''bogus'') = Inr (''1.2.3'', ''1.2.4'')"
proof -
  have o: "fst (open_w example_world (path (manifest_of ''1.2.3''))) = Inr [''proj'', ''manifest.json'']"
    using ex_open by (simp add: manifest_of_def)
  have k: "''bogus'' \<noteq> ''major''" "''bogus'' \<noteq> ''minor''" by simp_all
  have p: "[''1'', ''2'', ''3'']
      = split_sep CHR ''.'' ''1.2.3'' @ replicate (3 - length (split_sep CHR ''.'' ''1.2.3'')) ''0''"
    by code_simp
  have i: "py_int ([''1'', ''2'', ''3''] ! 0) = Some 1" "py_int ([''1'', ''2'', ''3''] ! 1) = Some 2"
    "py_int ([''1'', ''2'', ''3''] ! 2) = Some 3"
    by code_simp+
  have s: "py_str 1 @ ''.'' @ py_str 2 @ ''.'' @ py_str (3 + 1) = ''1.2.4''" by code_simp
  show ?thesis using bump_version_unknown_kind[OF k ex_version p i o] unfolding s .
qed

subsection \<open>The file tree\<close>

lemma dir_at_Nil: "dir_at t [] \<longleftrightarrow> (\<exists>cs. t = Dir cs)"
  by (cases t) (auto simp: dir_at_def)

lemma dir_at_Cons:
  "dir_at t (s # ss) \<longleftrightarrow> (\<exists>cs c. t = Dir cs \<and> map_of cs s = Some c \<and> dir_at c ss)"
  by (cases t) (auto simp: dir_at_def split: option.splits)

lemma lookup_parent: "lookup t p = Some n \<Longrightarrow> p \<noteq> [] \<Longrightarrow> dir_at t (butlast p)"
proof (induction p arbitrary: t)
  case Nil then show ?case by simp
next
  case (Cons s ss)
  then obtain cs c where t: "t = Dir cs" "map_of cs s = Some c" "lookup c ss = Some n"
    by (cases t) (auto split: option.splits)
  show ?case
  proof (cases "ss = []")
    case True then show ?thesis using t by (simp add: dir_at_Nil)
  next
    case False
    then have "dir_at c (butlast ss)" using Cons.IH t(3) by blast
    then show ?thesis using t False by (simp add: dir_at_Cons)
  qed
qed

lemma dir_at_parent_ok: "dir_at t p \<Longrightarrow> parent_ok t p"
  unfolding parent_ok_def using lookup_parent[of t p]
  by (cases "p = []") (auto simp: dir_at_def split: option.splits node.splits)

lemma lookup_put_same: "parent_ok t q \<Longrightarrow> lookup (put t q x) q = Some x"
proof (induction q arbitrary: t)
  case Nil then show ?case by simp
next
  case (Cons s ss)
  show ?case
  proof (cases "ss = []")
    case True
    then obtain cs where "t = Dir cs" using Cons.prems by (auto simp: parent_ok_def dir_at_Nil)
    then show ?thesis using True by (simp add: update_conv')
  next
    case False
    then obtain cs c where t: "t = Dir cs" "map_of cs s = Some c" "dir_at c (butlast ss)"
      using Cons.prems by (auto simp: parent_ok_def dir_at_Cons)
    then have "parent_ok c ss" by (simp add: parent_ok_def)
    then have "lookup (put c ss x) ss = Some x" by (rule Cons.IH)
    then show ?thesis using t False by (simp add: update_conv')
  qed
qed

lemma put_keeps_dirs:
  "dir_at t r \<Longrightarrow> \<not> dir_at t q \<Longrightarrow> dir_at (put t q (File rd ct)) r"
proof (induction q arbitrary: t r)
  case Nil
  then show ?case by (cases r; cases t) (auto simp: dir_at_def)
next
  case (Cons s ss)
  show ?case
  proof (cases r)
    case Nil
    then show ?thesis using Cons.prems by (cases t) (auto simp: dir_at_Nil split: option.splits)
  next
    case (Cons s' rs)
    then obtain cs c where t: "t = Dir cs" "map_of cs s' = Some c" "dir_at c rs"
      using Cons.prems(1) by (auto simp: dir_at_Cons)
    show ?thesis
    proof (cases "s' = s")
      case False
      then show ?thesis using t Cons by (auto simp: dir_at_Cons update_conv' split: option.splits)
    next
      case True
      have nd: "\<not> dir_at c ss" using Cons.prems(2) t True by (simp add: dir_at_Cons)
      have ne: "ss \<noteq> []" using nd t(3) dir_at_parent_ok[OF t(3)] lookup_parent[of c rs]
        by (cases rs) (auto simp: dir_at_def split: option.splits node.splits)
      have "dir_at (put c ss (File rd ct)) rs" using Cons.IH[OF t(3) nd] .
      then show ?thesis using t True Cons ne by (simp add: dir_at_Cons update_conv')
    qed
  qed
qed

lemma parent_ok_butlast: "dir_at t cur \<Longrightarrow> parent_ok t (butlast cur)"
proof (cases "cur = []")
  case True then show ?thesis by (simp add: parent_ok_def)
next
  case False
  assume "dir_at t cur"
  then obtain n where "lookup t cur = Some n" by (auto simp: dir_at_def split: option.splits)
  then have "dir_at t (butlast cur)" using False by (rule lookup_parent)
  then show ?thesis by (rule dir_at_parent_ok)
qed

lemma resolve_from_dir:
  "resolve_from t cur (s # ss) = Inr q \<Longrightarrow> dir_at t cur"
  by (auto simp: dir_at_def split: option.splits node.splits)

lemma resolve_from_parent_ok:
  "parent_ok t cur \<Longrightarrow> resolve_from t cur segs = Inr q \<Longrightarrow> parent_ok t q"
proof (induction segs arbitrary: cur)
  case Nil then show ?case by simp
next
  case (Cons s ss)
  have d: "dir_at t cur" using Cons.prems(2) by (rule resolve_from_dir)
  then obtain cs where l: "lookup t cur = Some (Dir cs)"
    by (auto simp: dir_at_def split: option.splits node.splits)
  consider "s = [] \<or> s = ''.''" | "s = ''..''" | "\<not> (s = [] \<or> s = ''.'')" "s \<noteq> ''..''" by blast
  then show ?case
  proof cases
    case 1
    then have "resolve_from t cur ss = Inr q" using Cons.prems(2) l by auto
    then show ?thesis using Cons.IH Cons.prems(1) by blast
  next
    case 2
    then have "resolve_from t (butlast cur) ss = Inr q" using Cons.prems(2) l by auto
    then show ?thesis using Cons.IH parent_ok_butlast[OF d] by blast
  next
    case 3
    then have "resolve_from t (cur @ [s]) ss = Inr q" using Cons.prems(2) l by auto
    moreover have "parent_ok t (cur @ [s])" using d by (simp add: parent_ok_def)
    ultimately show ?thesis using Cons.IH by blast
  qed
qed

lemma resolve_parent_ok: "resolve t p = Inr q \<Longrightarrow> parent_ok t q"
  unfolding resolve_def using resolve_from_parent_ok[of t "[]"]
  by (auto simp: parent_ok_def split: if_splits)

lemma resolve_from_mono:
  "resolve_from t cur segs = Inr q \<Longrightarrow> (\<And>r. dir_at t r \<Longrightarrow> dir_at t' r)
     \<Longrightarrow> resolve_from t' cur segs = Inr q"
proof (induction segs arbitrary: cur)
  case Nil then show ?case by simp
next
  case (Cons s ss)
  have d: "dir_at t cur" using Cons.prems(1) by (rule resolve_from_dir)
  then obtain cs where l: "lookup t cur = Some (Dir cs)"
    by (auto simp: dir_at_def split: option.splits node.splits)
  from d have "dir_at t' cur" by (rule Cons.prems(2))
  then obtain cs' where l': "lookup t' cur = Some (Dir cs')"
    by (auto simp: dir_at_def split: option.splits node.splits)
  show ?case using Cons.prems(1) Cons.IH[OF _ Cons.prems(2)] l l'
    by (auto split: if_splits)
qed

lemma resolve_mono:
  "resolve t p = Inr q \<Longrightarrow> (\<And>r. dir_at t r \<Longrightarrow> dir_at t' r) \<Longrightarrow> resolve t' p = Inr q"
  unfolding resolve_def using resolve_from_mono[of t "[]" _ q t']
  by (auto split: if_splits)

lemma resolve_put_file:
  "resolve t p = Inr q' \<Longrightarrow> \<not> dir_at t q \<Longrightarrow> resolve (put t q (File rd ct)) p = Inr q'"
  by (erule resolve_mono) (rule put_keeps_dirs)

lemma open_w_ok:
  assumes "open_w w p = (Inr q, w')"
  shows "resolve (fs w) p = Inr q" and "\<not> dir_at (fs w) q" and "parent_ok (fs w) q"
    and "\<exists>rd. fs w' = put (fs w) q (File rd Raw)
           \<and> (rd \<longleftrightarrow> (case lookup (fs w) q of Some (File r0 c0) \<Rightarrow> r0 | _ \<Rightarrow> True))"
    and "locked w' = locked w" and "stdout w' = stdout w"
proof -
  show r: "resolve (fs w) p = Inr q" using assms
    by (auto simp: open_w_def split: sum.splits if_splits option.splits node.splits)
  show "\<not> dir_at (fs w) q" using assms
    by (auto simp: open_w_def dir_at_def split: sum.splits if_splits option.splits node.splits)
  show "parent_ok (fs w) q" using r by (rule resolve_parent_ok)
  show "\<exists>rd. fs w' = put (fs w) q (File rd Raw)
           \<and> (rd \<longleftrightarrow> (case lookup (fs w) q of Some (File r0 c0) \<Rightarrow> r0 | _ \<Rightarrow> True))"
    using assms
    by (auto simp: open_w_def split: sum.splits if_splits option.splits node.splits)
  show "locked w' = locked w" "stdout w' = stdout w" using assms
    by (auto simp: open_w_def split: sum.splits if_splits option.splits node.splits)
qed

lemma put_keeps_parent_ok:
  "parent_ok t q' \<Longrightarrow> \<not> dir_at t q \<Longrightarrow> parent_ok (put t q (File rd ct)) q'"
  unfolding parent_ok_def by (auto intro: put_keeps_dirs)

lemma put_file_not_dir: "parent_ok t q \<Longrightarrow> \<not> dir_at (put t q (File rd ct)) q"
  by (simp add: dir_at_def lookup_put_same)

lemma save_result:
  assumes "save m w = (Inr (), w')"
  shows "\<exists>q rd. resolve (fs w) (path m) = Inr q \<and> resolve (fs w') (path m) = Inr q
          \<and> lookup (fs w') q = Some (File rd (Json (data m)))
          \<and> (rd \<longleftrightarrow> (case lookup (fs w) q of Some (File r0 c0) \<Rightarrow> r0 | _ \<Rightarrow> True))"
proof -
  from assms obtain q w1 where o: "open_w w (path m) = (Inr q, w1)"
    and w': "w' = write_content w1 q (Json (data m))"
    by (auto simp: save_def split: prod.splits sum.splits)
  note ok = open_w_ok[OF o]
  from ok(4) obtain rd where f1: "fs w1 = put (fs w) q (File rd Raw)"
    and rd: "rd \<longleftrightarrow> (case lookup (fs w) q of Some (File r0 c0) \<Rightarrow> r0 | _ \<Rightarrow> True)" by blast
  have l1: "lookup (fs w1) q = Some (File rd Raw)" using f1 ok(3) by (simp add: lookup_put_same)
  then have f2: "fs w' = put (fs w1) q (File rd (Json (data m)))"
    by (simp add: w' write_content_def)
  have p1: "parent_ok (fs w1) q" using ok(2,3) f1 by (simp add: put_keeps_parent_ok)
  have nd1: "\<not> dir_at (fs w1) q" using l1 by (simp add: dir_at_def)
  have "resolve (fs w1) (path m) = Inr q" unfolding f1 using ok(1,2) by (rule resolve_put_file)
  then have "resolve (fs w') (path m) = Inr q" unfolding f2 using nd1 by (rule resolve_put_file)
  moreover have "lookup (fs w') q = Some (File rd (Json (data m)))"
    using f2 p1 by (simp add: lookup_put_same)
  ultimately show ?thesis using ok(1) rd by blast
qed

lemma update_other_pairs:
  "filter (\<lambda>kv. fst kv \<noteq> k) (AList.update k v kvs) = filter (\<lambda>kv. fst kv \<noteq> k) kvs"
  by (induction kvs) auto

lemma update_keys_present: "k \<in> fst ` set kvs \<Longrightarrow> map fst (AList.update k v kvs) = map fst kvs"
  by (induction kvs) auto

lemma update_absent: "k \<notin> fst ` set kvs \<Longrightarrow> AList.update k v kvs = kvs @ [(k, v)]"
  by (induction kvs) auto

text \<open>
  Claim C7. Let the manifest have been loaded from the file at \<open>p\<close>, and let \<open>bump_version\<close>
  succeed. Then the file read again holds the loaded object with the key \<open>version\<close> set to
  the new version and nothing else changed: the pairs of all other keys are the same, in
  the same order, and the key \<open>version\<close> keeps its position (it is appended at the end if
  the manifest had none).
\<close>

theorem bump_version_frame:
  assumes "Manifest w p = Inr m"
    and "bump_version m w bump_type = (Inr (old_version, new_version), m', w')"
  shows "\<exists>kvs kvs'. data m = JObject kvs \<and> data m' = JObject kvs' \<and> load w' p = Inr (JObject kvs')
    \<and> kvs' = AList.update ''version'' (JString new_version) kvs
    \<and> filter (\<lambda>kv. fst kv \<noteq> ''version'') kvs' = filter (\<lambda>kv. fst kv \<noteq> ''version'') kvs
    \<and> (\<forall>k. k \<noteq> ''version'' \<longrightarrow> map_of kvs' k = map_of kvs k)
    \<and> (''version'' \<in> fst ` set kvs \<longrightarrow> map fst kvs' = map fst kvs)
    \<and> (''version'' \<notin> fst ` set kvs \<longrightarrow> kvs' = kvs @ [(''version'', JString new_version)])"
proof -
  from assms(1) have pm: "path m = p" and ld: "load w p = Inr (data m)"
    by (auto simp: Manifest_def split: sum.splits)
  from ld obtain q0 where q0: "resolve (fs w) p = Inr q0"
    and f0: "lookup (fs w) q0 = Some (File True (Json (data m)))"
    by (auto simp: load_def split: sum.splits option.splits node.splits if_splits content.splits)
  from assms(2) obtain kvs where kvs: "data m = JObject kvs"
    by (cases "data m") (auto simp: bump_version_def version_def dict_get_def)
  from assms(2) have sv: "set_version m w (JString new_version) = (Inr (), m', w')"
    by (auto simp: bump_version_def Let_def split: sum.splits json.splits option.splits prod.splits)
  let ?kvs' = "AList.update ''version'' (JString new_version) kvs"
  from sv have m': "m' = m\<lparr>data := JObject ?kvs'\<rparr>" and s: "save m' w = (Inr (), w')"
    by (auto simp: set_version_def kvs Let_def split: prod.splits)
  from save_result[OF s] obtain q rd where r: "resolve (fs w) (path m') = Inr q"
    and r': "resolve (fs w') (path m') = Inr q"
    and l': "lookup (fs w') q = Some (File rd (Json (data m')))"
    and rd: "rd \<longleftrightarrow> (case lookup (fs w) q of Some (File r0 c0) \<Rightarrow> r0 | _ \<Rightarrow> True)"
    by blast
  have "q = q0" using r q0 pm m' by simp
  then have "rd" using rd f0 by simp
  then have "load w' p = Inr (JObject ?kvs')" using r' l' pm m' by (simp add: load_def)
  moreover have "\<forall>k. k \<noteq> ''version'' \<longrightarrow> map_of ?kvs' k = map_of kvs k"
    by (simp add: update_conv')
  ultimately show ?thesis
    using kvs m' update_other_pairs[of "''version''" "JString new_version" kvs]
      update_keys_present[of "''version''" kvs "JString new_version"]
      update_absent[of "''version''" kvs "JString new_version"]
    by auto
qed

lemma ex_Manifest: "Manifest example_world ''/proj/manifest.json'' = Inr (manifest_of ''1.2.3'')"
  by code_simp

lemma ex_bump_minor:
  "fst (bump_version (manifest_of ''1.2.3'') example_world ''minor'') = Inr (''1.2.3'', ''1.3.0'')"
  by code_simp

theorem bump_version_frame_witness:
  "Manifest example_world ''/proj/manifest.json'' = Inr (manifest_of ''1.2.3'')
   \<and> fst (bump_version (manifest_of ''1.2.3'') example_world ''minor'') = Inr (''1.2.3'', ''1.3.0'')
   \<and> load (snd (snd (bump_version (manifest_of ''1.2.3'') example_world ''minor'')))
        ''/proj/manifest.json''
      = Inr (JObject [(''name'', JString ''My Ext''), (''version'', JString ''1.3.0''),
                      (''permissions'', JArray [JString ''tabs''])])"
proof -
  obtain m' w' where b: "bump_version (manifest_of ''1.2.3'') example_world ''minor''
      = (Inr (''1.2.3'', ''1.3.0''), m', w')"
    using ex_bump_minor
    by (cases "bump_version (manifest_of ''1.2.3'') example_world ''minor''") auto
  have d: "data (manifest_of ''1.2.3'') = JObject [(''name'', JString ''My Ext''),
      (''version'', JString ''1.2.3''), (''permissions'', JArray [JString ''tabs''])]"
    by (simp add: manifest_of_def manifest_json_def)
  from bump_version_frame[OF ex_Manifest b] d
  have "load w' ''/proj/manifest.json''
      = Inr (JObject [(''name'', JString ''My Ext''), (''version'', JString ''1.3.0''),
                      (''permissions'', JArray [JString ''tabs''])])"
    by auto
  then show ?thesis using ex_Manifest ex_bump_minor b by simp
qed

subsection \<open>Exclusion and the walk\<close>

lemma write_files_append:
  "write_files es (xs @ ys) =
     (case write_files es xs of (None, es') \<Rightarrow> write_files es' ys | (Some e, es') \<Rightarrow> (Some e, es'))"
  by (induction es xs rule: write_files.induct) auto

lemma add_to_zip_files:
  "add_to_zip w es source (Some item) = write_files es (source_files w source item)"
  by (auto simp: add_to_zip_def source_files_def split: option.splits node.splits)

lemma add_items_files: "add_items b w es files = write_files es (package_files b w files)"
proof (induction files arbitrary: es)
  case Nil
  show ?case by (simp add: package_files_def)
next
  case (Cons item items)
  let ?src = "os_path_join (project_root b) item"
  have split: "package_files b w (item # items) = source_files w ?src item @ package_files b w items"
    by (simp add: package_files_def)
  show ?case
  proof (cases "os_path_exists w ?src")
    case True
    then show ?thesis using Cons
      by (auto simp: split write_files_append add_to_zip_files Let_def split: prod.splits option.splits)
  next
    case False
    then have "source_files w ?src item = []"
      by (simp add: os_path_exists_def source_files_def)
    then show ?thesis using False Cons by (simp add: split)
  qed
qed

lemma write_files_ok:
  "write_files es xs = (None, es') \<longleftrightarrow> (\<forall>x\<in>set xs. can_read (snd x)) \<and> es' = es @ map fst xs"
  by (induction es xs rule: write_files.induct) auto

lemma write_files_fail:
  "write_files es xs = (Some e, es') \<Longrightarrow>
     e = PermissionError \<and> (\<exists>pre x post. xs = pre @ x # post \<and> \<not> can_read (snd x)
        \<and> (\<forall>y\<in>set pre. can_read (snd y)) \<and> es' = es @ map fst pre)"
proof (induction es xs rule: write_files.induct)
  case (1 es) then show ?case by simp
next
  case (2 es arc r c rest)
  show ?case
  proof (cases r)
    case False
    with 2 have "e = PermissionError" "es' = es" by auto
    moreover have "(arc, File r c) # rest = [] @ (arc, File r c) # rest" by simp
    ultimately show ?thesis using False by (metis append_Nil2 can_read.simps(1) empty_iff list.set(1) map_is_Nil_conv snd_conv)
  next
    case True
    with 2 obtain pre x post where e: "e = PermissionError" and "rest = pre @ x # post" "\<not> can_read (snd x)"
      "\<forall>y\<in>set pre. can_read (snd y)" "es' = (es @ [arc]) @ map fst pre" by auto
    then have "(arc, File r c) # rest = ((arc, File r c) # pre) @ x # post"
      "\<forall>y\<in>set ((arc, File r c) # pre). can_read (snd y)"
      "es' = es @ map fst ((arc, File r c) # pre)" using True by auto
    with e \<open>\<not> can_read (snd x)\<close> show ?thesis by blast
  qed
next
  case (3 es arc ds rest)
  then obtain pre x post where e: "e = PermissionError" and "rest = pre @ x # post" "\<not> can_read (snd x)"
      "\<forall>y\<in>set pre. can_read (snd y)" "es' = (es @ [arc]) @ map fst pre" by auto
  then have "(arc, Dir ds) # rest = ((arc, Dir ds) # pre) @ x # post"
      "\<forall>y\<in>set ((arc, Dir ds) # pre). can_read (snd y)"
      "es' = es @ map fst ((arc, Dir ds) # pre)" by auto
  with e \<open>\<not> can_read (snd x)\<close> show ?case by blast
qed

lemma exclude_loop_iff:
  "exclude_loop ps pth nm \<longleftrightarrow>
     (\<exists>pattern\<in>set ps. if prefix ''*'' pattern then suffix (drop 1 pattern) nm
                          else pattern = nm \<or> pattern \<in> set (split_sep CHR ''/'' pth))"
  by (induction ps) auto

lemma kept_dirs:
  "d \<in> set (map fst (filter (\<lambda>(d, n). (case n of Dir ds \<Rightarrow> \<not> prune d | File r c \<Rightarrow> False)) cs))
     \<Longrightarrow> \<not> prune d"
proof -
  let ?P = "\<lambda>(d, n). (case n of Dir ds \<Rightarrow> \<not> prune d | File r c \<Rightarrow> False)"
  assume "d \<in> set (map fst (filter ?P cs))"
  then obtain x where x: "?P x" "fst x = d" by auto
  obtain a n where an: "x = (a, n)" by (cases x)
  show ?thesis using x unfolding an by (cases n) auto
qed

lemma os_walk_roots:
  "(root', dirs, files) \<in> set (os_walk prune root cs) \<Longrightarrow>
     \<exists>rel. root' = root @ rel \<and> (\<forall>s\<in>set rel. \<not> prune s) \<and> (\<forall>d\<in>set dirs. \<not> prune d)"
  "(root', dirs, files) \<in> set (walk_subdirs prune root cs) \<Longrightarrow>
     \<exists>rel. root' = root @ rel \<and> (\<forall>s\<in>set rel. \<not> prune s) \<and> (\<forall>d\<in>set dirs. \<not> prune d)"
proof (induction prune root cs and prune root cs arbitrary: root' dirs files and root' dirs files
       rule: os_walk_walk_subdirs.induct)
  case (1 prune root cs)
  from 1(2) have "(root', dirs, files) \<in> set ((root,
      map fst (filter (\<lambda>(d, n). (case n of Dir ds \<Rightarrow> \<not> prune d | File r c \<Rightarrow> False)) cs),
      filter (\<lambda>(f, n). (case n of Dir ds \<Rightarrow> False | File r c \<Rightarrow> True)) cs)
     # walk_subdirs prune root cs)" by (simp add: os_walk.simps)
  then consider "root' = root" "dirs = map fst (filter (\<lambda>(d, n). (case n of Dir ds \<Rightarrow> \<not> prune d | File r c \<Rightarrow> False)) cs)"
    | "(root', dirs, files) \<in> set (walk_subdirs prune root cs)" by auto
  then show ?case
  proof cases
    case 1
    have "\<not> prune d" if "d \<in> set dirs" for d
      using that unfolding 1(2) by (rule kept_dirs)
    then show ?thesis using 1(1) by auto
  next
    case 2
    then show ?thesis using "1.IH" by blast
  qed
next
  case (2 prune root) then show ?case by simp
next
  case (3 prune root d ds cs)
  from 3(3) consider "\<not> prune d" "(root', dirs, files) \<in> set (os_walk prune (root @ [d]) ds)"
    | "(root', dirs, files) \<in> set (walk_subdirs prune root cs)" by (auto split: if_splits)
  then show ?case
  proof cases
    case 1
    from "3.IH"(1)[OF 1] obtain rel where "root' = (root @ [d]) @ rel" "\<forall>s\<in>set rel. \<not> prune s"
      "\<forall>d\<in>set dirs. \<not> prune d" by blast
    then have "root' = root @ (d # rel)" "\<forall>s\<in>set (d # rel). \<not> prune s" using 1(1) by auto
    with \<open>\<forall>d\<in>set dirs. \<not> prune d\<close> show ?thesis by blast
  next
    case 2
    then show ?thesis using "3.IH"(2) by blast
  qed
next
  case (4 prune root f r c cs)
  then show ?case by auto
qed

lemma walk_files_names:
  assumes "(arc, n) \<in> set (walk_files arcname cs)"
  shows "\<exists>rel. arc = arcname # rel \<and> rel \<noteq> [] \<and> (\<forall>s\<in>set rel. \<not> should_exclude s)"
proof -
  from assms obtain root dirs files fl where w: "(root, dirs, files) \<in> set (os_walk should_exclude [] cs)"
    and f: "(fl, n) \<in> set files" "\<not> should_exclude fl" and a: "arc = arcname # root @ [fl]"
    by (auto simp: walk_files_def)
  from os_walk_roots(1)[OF w] have "\<forall>s\<in>set root. \<not> should_exclude s" by auto
  then have "\<forall>s\<in>set (root @ [fl]). \<not> should_exclude s" using f(2) by auto
  then show ?thesis using a by blast
qed

lemma source_files_names:
  assumes "(arc, n) \<in> set (source_files w source arcname)"
  shows "\<exists>rel. arc = arcname # rel \<and> (\<forall>s\<in>set rel. \<not> should_exclude s)"
proof (cases "stat w source")
  case None
  then show ?thesis using assms by (simp add: source_files_def)
next
  case (Some nd)
  show ?thesis
  proof (cases nd)
    case (File r c)
    then have "arc = [arcname]" using assms Some by (auto simp: source_files_def split: if_splits)
    then show ?thesis by simp
  next
    case (Dir cs)
    then have "(arc, n) \<in> set (walk_files arcname cs)" using assms Some by (simp add: source_files_def)
    then show ?thesis using walk_files_names by blast
  qed
qed

lemma write_files_written:
  "write_files es xs = (r, es') \<Longrightarrow> \<exists>pre. es' = es @ map fst pre \<and> set pre \<subseteq> set xs"
proof (cases r)
  case None
  assume "write_files es xs = (r, es')"
  then have "es' = es @ map fst xs" using None by (simp add: write_files_ok)
  then show ?thesis by blast
next
  case (Some e)
  assume "write_files es xs = (r, es')"
  then obtain pre x post where "xs = pre @ x # post" "es' = es @ map fst pre"
    using Some write_files_fail[of es xs e es'] by auto
  then have "es' = es @ map fst pre \<and> set pre \<subseteq> set xs" by auto
  then show ?thesis by blast
qed

lemma package_files_names:
  assumes "(arc, n) \<in> set (package_files b w files)"
  shows "\<exists>item rel. item \<in> set files \<and> arc = item # rel \<and> (\<forall>s\<in>set rel. \<not> should_exclude s)"
proof -
  from assms obtain item where "item \<in> set files"
    "(arc, n) \<in> set (source_files w (os_path_join (project_root b) item) item)"
    by (auto simp: package_files_def)
  then show ?thesis using source_files_names by blast
qed

text \<open>
  Claim C2. The exclusion test holds of a path iff some pattern equals its last segment or
  any of its segments, or is a wildcard whose suffix ends the last segment. In the walk of
  an included directory no directory that is listed has an excluded segment in its path
  below the included directory, and no excluded subdirectory is kept for descent: an
  excluded directory and all below it are never visited. Every file that the walk writes,
  and every entry of the archive, is the include entry followed by segments none of which
  is excluded.
\<close>

theorem excluded_never_packaged:
  "(should_exclude pth \<longleftrightarrow>
      (\<exists>pattern\<in>set EXCLUDE_PATTERNS.
          if prefix ''*'' pattern then suffix (drop 1 pattern) (os_path_basename pth)
          else pattern = os_path_basename pth \<or> pattern \<in> set (split_sep CHR ''/'' pth)))
   \<and> (\<forall>(root, dirs, files) \<in> set (os_walk should_exclude [] cs).
         (\<forall>s\<in>set root. \<not> should_exclude s) \<and> (\<forall>d\<in>set dirs. \<not> should_exclude d))
   \<and> (\<forall>(arc, n) \<in> set (walk_files arcname cs).
         \<exists>rel. arc = arcname # rel \<and> (\<forall>s\<in>set rel. \<not> should_exclude s))
   \<and> (\<forall>e \<in> set (snd (add_items b w [] items)).
         \<exists>item rel. item \<in> set items \<and> e = item # rel \<and> (\<forall>s\<in>set rel. \<not> should_exclude s))"
proof -
  have a: "should_exclude pth \<longleftrightarrow>
      (\<exists>pattern\<in>set EXCLUDE_PATTERNS.
          if prefix ''*'' pattern then suffix (drop 1 pattern) (os_path_basename pth)
          else pattern = os_path_basename pth \<or> pattern \<in> set (split_sep CHR ''/'' pth))"
    unfolding should_exclude_def by (rule exclude_loop_iff)
  have b: "\<forall>(root, dirs, files) \<in> set (os_walk should_exclude [] cs).
         (\<forall>s\<in>set root. \<not> should_exclude s) \<and> (\<forall>d\<in>set dirs. \<not> should_exclude d)"
  proof (intro ballI)
    fix x assume x: "x \<in> set (os_walk should_exclude [] cs)"
    obtain root dirs files where t: "x = (root, dirs, files)" by (cases x)
    from os_walk_roots(1)[OF x[unfolded t]]
    have "(\<forall>s\<in>set root. \<not> should_exclude s) \<and> (\<forall>d\<in>set dirs. \<not> should_exclude d)" by auto
    then show "case x of (root, dirs, files) \<Rightarrow>
         (\<forall>s\<in>set root. \<not> should_exclude s) \<and> (\<forall>d\<in>set dirs. \<not> should_exclude d)"
      by (simp add: t)
  qed
  have c: "\<forall>(arc, n) \<in> set (walk_files arcname cs).
         \<exists>rel. arc = arcname # rel \<and> (\<forall>s\<in>set rel. \<not> should_exclude s)"
  proof (intro ballI)
    fix x assume x: "x \<in> set (walk_files arcname cs)"
    obtain arc n where t: "x = (arc, n)" by (cases x)
    from walk_files_names[OF x[unfolded t]]
    show "case x of (arc, n) \<Rightarrow> \<exists>rel. arc = arcname # rel \<and> (\<forall>s\<in>set rel. \<not> should_exclude s)"
      by (auto simp: t)
  qed
  have d: "\<forall>e \<in> set (snd (add_items b w [] items)).
         \<exists>item rel. item \<in> set items \<and> e = item # rel \<and> (\<forall>s\<in>set rel. \<not> should_exclude s)"
  proof
    fix e assume e: "e \<in> set (snd (add_items b w [] items))"
    obtain r es where r: "write_files [] (package_files b w items) = (r, es)"
      by (cases "write_files [] (package_files b w items)")
    from write_files_written[OF r] obtain pre where "es = map fst pre"
      "set pre \<subseteq> set (package_files b w items)" by auto
    moreover have "e \<in> set es" using e r by (simp add: add_items_files)
    ultimately obtain n where "(e, n) \<in> set (package_files b w items)" by auto
    then show "\<exists>item rel. item \<in> set items \<and> e = item # rel \<and> (\<forall>s\<in>set rel. \<not> should_exclude s)"
      by (rule package_files_names)
  qed
  show ?thesis by (intro conjI a b c d)
qed

theorem excluded_never_packaged_witness:
  "should_exclude ''node_modules''
   \<and> map fst (os_walk should_exclude [] example_src) = [[], [''lib'']]
   \<and> map fst (walk_files ''src'' example_src) = [[''src'', ''content.js''], [''src'', ''lib'', ''util.js'']]
   \<and> [''src'', ''lib'', ''util.js''] \<in> set (snd (add_items example_builder example_world [] STORE_FILES))
   \<and> [''src'', ''node_modules'', ''dep'', ''big.bin'']
        \<notin> set (snd (add_items example_builder example_world [] STORE_FILES))"
proof -
  have x: "should_exclude ''node_modules''" by code_simp
  have v: "map fst (os_walk should_exclude [] example_src) = [[], [''lib'']]" by code_simp
  have f: "map fst (walk_files ''src'' example_src)
      = [[''src'', ''content.js''], [''src'', ''lib'', ''util.js'']]" by code_simp
  have i: "[''src'', ''lib'', ''util.js'']
      \<in> set (snd (add_items example_builder example_world [] STORE_FILES))" by code_simp
  have "[''src'', ''node_modules'', ''dep'', ''big.bin'']
        \<notin> set (snd (add_items example_builder example_world [] STORE_FILES))"
  proof
    assume "[''src'', ''node_modules'', ''dep'', ''big.bin'']
        \<in> set (snd (add_items example_builder example_world [] STORE_FILES))"
    moreover have "\<forall>e \<in> set (snd (add_items example_builder example_world [] STORE_FILES)).
         \<exists>item rel. item \<in> set STORE_FILES \<and> e = item # rel \<and> (\<forall>s\<in>set rel. \<not> should_exclude s)"
      using excluded_never_packaged[of "''node_modules''" example_src "''src''" example_builder
        example_world STORE_FILES] by (elim conjE)
    ultimately obtain item rel where "[''src'', ''node_modules'', ''dep'', ''big.bin''] = item # rel"
      "\<forall>s\<in>set rel. \<not> should_exclude s" by blast
    then have "\<not> should_exclude ''node_modules''" by auto
    with x show False by simp
  qed
  with x v f i show ?thesis by blast
qed

subsection \<open>Writing an archive does not change what is packaged\<close>

lemma walk_files_from: "walk_files arcname cs = walk_from arcname [] cs"
  unfolding walk_files_def walk_from_def entry_files_def by (meson case_prod_unfold)

lemma is_file_eq: "(\<lambda>(f, n). (case n of Dir ds \<Rightarrow> False | File r c \<Rightarrow> True)) = is_file"
proof (rule ext)
  fix x :: "string \<times> node"
  obtain f n where "x = (f, n)" by (cases x)
  then show "(case x of (f, n) \<Rightarrow> (case n of Dir ds \<Rightarrow> False | File r c \<Rightarrow> True)) = is_file x"
    by (cases n) auto
qed

lemma walk_from_unfold: "walk_from arc root cs = here arc root cs @ sub_from arc root cs"
  by (simp add: walk_from_def sub_from_def here_def os_walk.simps entry_files_def is_file_eq)

lemma sub_from_simps:
  "sub_from arc root [] = []"
  "sub_from arc root ((d, Dir ds) # cs) =
     (if should_exclude d then [] else walk_from arc (root @ [d]) ds) @ sub_from arc root cs"
  "sub_from arc root ((f, File r c) # cs) = sub_from arc root cs"
  by (simp_all add: sub_from_def walk_from_def)

lemma here_simps:
  "here arc root [] = []"
  "here arc root ((d, Dir ds) # cs) = here arc root cs"
  "here arc root ((f, File r c) # cs) =
     (if should_exclude f then [] else [(arc # root @ [f], File r c)]) @ here arc root cs"
  by (simp_all add: here_def)

lemma update_excluded:
  "should_exclude s \<Longrightarrow> here arc root (AList.update s x cs) = here arc root cs
     \<and> sub_from arc root (AList.update s x cs) = sub_from arc root cs"
proof (induction cs)
  case Nil
  then show ?case by (cases x) (simp_all add: here_simps sub_from_simps)
next
  case (Cons kv cs)
  obtain k v where kv: "kv = (k, v)" by (cases kv)
  show ?case using Cons unfolding kv
    by (cases v; cases x) (auto simp: here_simps sub_from_simps)
qed

lemma delete_excluded:
  "should_exclude s \<Longrightarrow> here arc root (AList.delete s cs) = here arc root cs
     \<and> sub_from arc root (AList.delete s cs) = sub_from arc root cs"
proof (induction cs)
  case Nil
  then show ?case by simp
next
  case (Cons kv cs)
  obtain k v where kv: "kv = (k, v)" by (cases kv)
  show ?case using Cons unfolding kv
    by (cases v) (auto simp: here_simps sub_from_simps)
qed

lemma update_same_walk:
  "map_of cs s = Some (Dir ds) \<Longrightarrow> (\<And>root. walk_from arc root ds' = walk_from arc root ds)
     \<Longrightarrow> here arc root (AList.update s (Dir ds') cs) = here arc root cs
       \<and> sub_from arc root (AList.update s (Dir ds') cs) = sub_from arc root cs"
proof (induction cs)
  case Nil
  then show ?case by simp
next
  case (Cons kv cs)
  obtain k v where kv: "kv = (k, v)" by (cases kv)
  show ?case using Cons unfolding kv
    by (cases v) (auto simp: here_simps sub_from_simps)
qed

lemma put_Dir: "q \<noteq> [] \<Longrightarrow> \<exists>cs'. put (Dir cs) q x = Dir cs'"
  by (cases q) (auto split: option.splits)

lemma remove_at_Dir: "\<exists>cs'. remove_at (Dir cs) q = Dir cs'"
  by (cases q) (auto split: option.splits)

lemma put_walk:
  "q \<noteq> [] \<Longrightarrow> should_exclude (last q) \<Longrightarrow> put (Dir cs) q x = Dir cs'
     \<Longrightarrow> walk_from arc root cs' = walk_from arc root cs"
proof (induction q arbitrary: cs cs' root)
  case Nil then show ?case by simp
next
  case (Cons s ss)
  show ?case
  proof (cases "ss = []")
    case True
    then have "cs' = AList.update s x cs" "should_exclude s" using Cons.prems by auto
    then show ?thesis using update_excluded[of s arc root x cs] by (simp add: walk_from_unfold)
  next
    case False
    show ?thesis
    proof (cases "map_of cs s")
      case None
      then show ?thesis using Cons.prems False by simp
    next
      case (Some c)
      show ?thesis
      proof (cases c)
        case (File r ct)
        then have "cs' = AList.update s c cs" using Cons.prems False Some
          by (cases ss) auto
        then have "cs' = cs" using Some by (simp add: update_triv)
        then show ?thesis by simp
      next
        case (Dir ds)
        obtain ds' where ds': "put (Dir ds) ss x = Dir ds'" using put_Dir[OF False] by blast
        have "\<And>root. walk_from arc root ds' = walk_from arc root ds"
          using Cons.IH[OF False _ ds'] Cons.prems(2) False by simp
        moreover have "cs' = AList.update s (Dir ds') cs" using Cons.prems False Some Dir ds' by simp
        ultimately show ?thesis using update_same_walk[of cs s ds arc ds' root] Some Dir
          by (simp add: walk_from_unfold)
      qed
    qed
  qed
qed

lemma remove_at_walk:
  "q \<noteq> [] \<Longrightarrow> should_exclude (last q) \<Longrightarrow> remove_at (Dir cs) q = Dir cs'
     \<Longrightarrow> walk_from arc root cs' = walk_from arc root cs"
proof (induction q arbitrary: cs cs' root)
  case Nil then show ?case by simp
next
  case (Cons s ss)
  show ?case
  proof (cases "ss = []")
    case True
    then have "cs' = AList.delete s cs" "should_exclude s" using Cons.prems by auto
    then show ?thesis using delete_excluded[of s arc root cs] by (simp add: walk_from_unfold)
  next
    case False
    show ?thesis
    proof (cases "map_of cs s")
      case None
      then show ?thesis using Cons.prems False by simp
    next
      case (Some c)
      show ?thesis
      proof (cases c)
        case (File r ct)
        then have "cs' = AList.update s c cs" using Cons.prems False Some
          by (cases ss) auto
        then have "cs' = cs" using Some by (simp add: update_triv)
        then show ?thesis by simp
      next
        case (Dir ds)
        obtain ds' where ds': "remove_at (Dir ds) ss = Dir ds'" using remove_at_Dir by blast
        have "\<And>root. walk_from arc root ds' = walk_from arc root ds"
          using Cons.IH[OF False _ ds'] Cons.prems(2) False by simp
        moreover have "cs' = AList.update s (Dir ds') cs" using Cons.prems False Some Dir ds' by simp
        ultimately show ?thesis using update_same_walk[of cs s ds arc ds' root] Some Dir
          by (simp add: walk_from_unfold)
      qed
    qed
  qed
qed

lemma same_walk_refl: "same_walk a a"
  by (auto simp: same_walk_def split: option.splits node.splits)

lemma split_sep_nonempty: "split_sep c s \<noteq> []"
  by (induction s) (auto simp: Let_def)

lemma split_sep_last_append:
  "c \<notin> set u \<Longrightarrow> last (split_sep c (v @ u)) = last (split_sep c v) @ u"
proof (induction v)
  case Nil
  then show ?case by (simp add: split_sep_single)
next
  case (Cons x v)
  obtain a r where r: "split_sep c (v @ u) = a # r"
    using split_sep_nonempty[of c "v @ u"] by (cases "split_sep c (v @ u)") auto
  obtain a' r' where r': "split_sep c v = a' # r'"
    using split_sep_nonempty[of c v] by (cases "split_sep c v") auto
  have nil: "r = [] \<longleftrightarrow> r' = []"
  proof -
    have "length (split_sep c (w @ u)) = length (split_sep c w)" for w
      using Cons.prems by (induction w) (auto simp: Let_def split_sep_single)
    then show ?thesis using r r' by (metis length_Cons length_0_conv nat.inject)
  qed
  show ?case using Cons r r' nil by (auto simp: Let_def)
qed

lemma basename_suffix:
  "suffix u p \<Longrightarrow> CHR ''/'' \<notin> set u \<Longrightarrow> suffix u (os_path_basename p)"
  unfolding os_path_basename_def by (auto simp: suffix_def split_sep_last_append)

lemma zip_excluded: "suffix ''.zip'' (os_path_basename p) \<Longrightarrow> should_exclude p"
  unfolding should_exclude_def exclude_loop_iff EXCLUDE_PATTERNS_def by auto

lemma zip_name_excluded: "suffix ''.zip'' s \<Longrightarrow> should_exclude s"
  by (rule zip_excluded) (simp add: basename_suffix)

lemma os_path_join_suffix: "suffix b (os_path_join a b)"
  by (auto simp: os_path_join_def suffix_def)

lemma dir_at_butlast: "dir_at t cur \<Longrightarrow> dir_at t (butlast cur)"
proof (cases "cur = []")
  case True
  assume "dir_at t cur" then show ?thesis using True by simp
next
  case False
  assume "dir_at t cur"
  then obtain n where "lookup t cur = Some n" by (auto simp: dir_at_def split: option.splits)
  then show ?thesis using False by (rule lookup_parent)
qed

lemma resolve_from_last:
  "resolve_from t cur segs = Inr q \<Longrightarrow> segs \<noteq> [] \<Longrightarrow> \<not> dir_at t q
     \<Longrightarrow> q \<noteq> [] \<and> last q = last segs"
proof (induction segs arbitrary: cur)
  case Nil then show ?case by simp
next
  case (Cons s ss)
  have d: "dir_at t cur" using Cons.prems(1) by (rule resolve_from_dir)
  then obtain cs where l: "lookup t cur = Some (Dir cs)"
    by (auto simp: dir_at_def split: option.splits node.splits)
  show ?case
  proof (cases "ss = []")
    case True
    then have "q = cur \<or> q = butlast cur \<or> (q = cur @ [s])"
      using Cons.prems(1) l by (auto split: if_splits)
    moreover have "q \<noteq> cur" "q \<noteq> butlast cur" using d dir_at_butlast[OF d] Cons.prems(3) by auto
    ultimately show ?thesis using True by auto
  next
    case False
    obtain cur' where "resolve_from t cur' ss = Inr q"
      using Cons.prems(1) l by (auto split: if_splits)
    then show ?thesis using Cons.IH False Cons.prems(3) by auto
  qed
qed

lemma resolve_last:
  "resolve t p = Inr q \<Longrightarrow> \<not> dir_at t q \<Longrightarrow> q \<noteq> [] \<and> last q = os_path_basename p"
  unfolding resolve_def os_path_basename_def
  using resolve_from_last[of t "[]" "split_sep CHR ''/'' p" q] split_sep_nonempty
  by (auto split: if_splits)

lemma put_lookup_other:
  "q \<noteq> [] \<Longrightarrow> should_exclude (last q) \<Longrightarrow> \<not> dir_at t q \<Longrightarrow> p \<noteq> q
     \<Longrightarrow> same_walk (lookup (put t q (File rx cx)) p) (lookup t p)"
proof (induction q arbitrary: t p)
  case Nil then show ?case by simp
next
  case (Cons s ss)
  show ?case
  proof (cases t)
    case (File r c)
    then show ?thesis by (simp add: same_walk_refl)
  next
    case (Dir cs)
    obtain cs' where cs': "put (Dir cs) (s # ss) (File rx cx) = Dir cs'"
      using put_Dir[of "s # ss"] by blast
    show ?thesis
    proof (cases p)
      case Nil
      have "\<forall>arc root. walk_from arc root cs' = walk_from arc root cs"
        using put_walk[OF _ Cons.prems(2) cs'] by simp
      then show ?thesis using Nil Dir cs' by (simp add: same_walk_def)
    next
      case (Cons s' ps)
      show ?thesis
      proof (cases "s' = s")
        case False
        then have "lookup (put t (s # ss) (File rx cx)) p = lookup t p"
          using Dir Cons by (auto simp: update_conv' split: option.splits)
        then show ?thesis by (simp add: same_walk_refl)
      next
        case True
        show ?thesis
        proof (cases "ss = []")
          case ss: True
          then have ps: "ps \<noteq> []" using Cons True \<open>p \<noteq> s # ss\<close> by simp
          then have a: "lookup (put t (s # ss) (File rx cx)) p = None"
            using Dir Cons True ss by (cases ps) (auto simp: update_conv')
          have "lookup t p = None"
          proof (cases "map_of cs s")
            case None then show ?thesis using Dir Cons True by simp
          next
            case (Some c)
            then have "\<not> dir_at c []" using Cons.prems(3) Dir ss by (simp add: dir_at_Cons)
            then obtain r ct where "c = File r ct" by (cases c) (auto simp: dir_at_Nil)
            then show ?thesis using Dir Cons True Some ps by (cases ps) auto
          qed
          with a show ?thesis by (simp add: same_walk_def)
        next
          case ss: False
          show ?thesis
          proof (cases "map_of cs s")
            case None
            then have "put t (s # ss) (File rx cx) = t" using Dir ss by simp
            then show ?thesis by (simp add: same_walk_refl)
          next
            case (Some c)
            have nd: "\<not> dir_at c ss" using Cons.prems(3) Dir Some by (simp add: dir_at_Cons)
            have ne: "ps \<noteq> ss" using Cons True \<open>p \<noteq> s # ss\<close> by simp
            have "same_walk (lookup (put c ss (File rx cx)) ps) (lookup c ps)"
              using Cons.IH[OF ss _ nd ne] Cons.prems(2) ss by simp
            then show ?thesis using Dir Cons True Some ss by (simp add: update_conv')
          qed
        qed
      qed
    qed
  qed
qed

lemma remove_lookup_other:
  "q \<noteq> [] \<Longrightarrow> should_exclude (last q) \<Longrightarrow> \<not> dir_at t q \<Longrightarrow> p \<noteq> q
     \<Longrightarrow> same_walk (lookup (remove_at t q) p) (lookup t p)"
proof (induction q arbitrary: t p)
  case Nil then show ?case by simp
next
  case (Cons s ss)
  show ?case
  proof (cases t)
    case (File r c)
    then show ?thesis by (simp add: same_walk_refl)
  next
    case (Dir cs)
    obtain cs' where cs': "remove_at (Dir cs) (s # ss) = Dir cs'"
      using remove_at_Dir by blast
    show ?thesis
    proof (cases p)
      case Nil
      have "\<forall>arc root. walk_from arc root cs' = walk_from arc root cs"
        using remove_at_walk[OF _ Cons.prems(2) cs'] by simp
      then show ?thesis using Nil Dir cs' by (simp add: same_walk_def)
    next
      case (Cons s' ps)
      show ?thesis
      proof (cases "s' = s")
        case False
        then have "lookup (remove_at t (s # ss)) p = lookup t p"
          using Dir Cons by (auto simp: update_conv' delete_conv' split: option.splits)
        then show ?thesis by (simp add: same_walk_refl)
      next
        case True
        show ?thesis
        proof (cases "ss = []")
          case ss: True
          then have ps: "ps \<noteq> []" using Cons True \<open>p \<noteq> s # ss\<close> by simp
          have a: "lookup (remove_at t (s # ss)) p = None"
            using Dir Cons True ss by (simp add: delete_conv')
          have "lookup t p = None"
          proof (cases "map_of cs s")
            case None then show ?thesis using Dir Cons True by simp
          next
            case (Some c)
            then have "\<not> dir_at c []" using Cons.prems(3) Dir ss by (simp add: dir_at_Cons)
            then obtain r ct where "c = File r ct" by (cases c) (auto simp: dir_at_Nil)
            then show ?thesis using Dir Cons True Some ps by (cases ps) auto
          qed
          with a show ?thesis by (simp add: same_walk_def)
        next
          case ss: False
          show ?thesis
          proof (cases "map_of cs s")
            case None
            then have "remove_at t (s # ss) = t" using Dir ss by simp
            then show ?thesis by (simp add: same_walk_refl)
          next
            case (Some c)
            have nd: "\<not> dir_at c ss" using Cons.prems(3) Dir Some by (simp add: dir_at_Cons)
            have ne: "ps \<noteq> ss" using Cons True \<open>p \<noteq> s # ss\<close> by simp
            have "same_walk (lookup (remove_at c ss) ps) (lookup c ps)"
              using Cons.IH[OF ss _ nd ne] Cons.prems(2) ss by simp
            then show ?thesis using Dir Cons True Some ss by (simp add: update_conv')
          qed
        qed
      qed
    qed
  qed
qed

lemma remove_at_lookup_same:
  "lookup (remove_at t q) q = None \<or> lookup (remove_at t q) q = lookup t q"
proof (induction q arbitrary: t)
  case Nil then show ?case by simp
next
  case (Cons s ss)
  show ?case
  proof (cases t)
    case (File r c) then show ?thesis by simp
  next
    case (Dir cs)
    show ?thesis
    proof (cases "ss = []")
      case True then show ?thesis using Dir by (simp add: delete_conv')
    next
      case False
      then show ?thesis using Dir Cons.IH by (auto simp: update_conv' split: option.splits)
    qed
  qed
qed

lemma put_file_lookup_same:
  "lookup (put t q (File rx cx)) q = Some (File rx cx) \<or> put t q (File rx cx) = t"
proof (induction q arbitrary: t)
  case Nil then show ?case by simp
next
  case (Cons s ss)
  show ?case
  proof (cases t)
    case (File r c) then show ?thesis by simp
  next
    case (Dir cs)
    show ?thesis
    proof (cases "ss = []")
      case True then show ?thesis using Dir by (simp add: update_conv')
    next
      case False
      show ?thesis
      proof (cases "map_of cs s")
        case None then show ?thesis using Dir False by simp
      next
        case (Some c)
        from Cons.IH[of c] show ?thesis
        proof
          assume "lookup (put c ss (File rx cx)) ss = Some (File rx cx)"
          then show ?thesis using Dir False Some by (simp add: update_conv')
        next
          assume "put c ss (File rx cx) = c"
          then show ?thesis using Dir False Some by (simp add: update_triv)
        qed
      qed
    qed
  qed
qed

lemma zip_change_put:
  "q \<noteq> [] \<Longrightarrow> suffix ''.zip'' (last q) \<Longrightarrow> \<not> dir_at t q
     \<Longrightarrow> zip_change q t (put t q (File rx cx))"
  unfolding zip_change_def
  using put_file_lookup_same[of t q rx cx] put_lookup_other[of q t _ rx cx] zip_name_excluded
  by (auto simp: dir_at_def)

lemma zip_change_remove:
  "q \<noteq> [] \<Longrightarrow> suffix ''.zip'' (last q) \<Longrightarrow> \<not> dir_at t q
     \<Longrightarrow> zip_change q t (remove_at t q)"
  unfolding zip_change_def
  using remove_at_lookup_same[of t q] remove_lookup_other[of q t] zip_name_excluded
  by (auto simp: dir_at_def)

lemma same_walk_dir: "same_walk a b \<Longrightarrow> (\<exists>cs. a = Some (Dir cs)) \<longleftrightarrow> (\<exists>cs. b = Some (Dir cs))"
  by (auto simp: same_walk_def split: option.splits node.splits)

lemma zip_change_dirs: "zip_change q t t' \<Longrightarrow> dir_at t' r \<longleftrightarrow> dir_at t r"
proof (cases "r = q")
  case True
  assume "zip_change q t t'"
  then show ?thesis using True by (simp add: zip_change_def)
next
  case False
  assume "zip_change q t t'"
  then have "same_walk (lookup t' r) (lookup t r)" using False by (simp add: zip_change_def)
  from same_walk_dir[OF this] show ?thesis
    by (auto simp: dir_at_def split: option.splits node.splits)
qed

lemma zip_change_resolve:
  assumes "zip_change q t t'"
  shows "resolve t' p = Inr x \<longleftrightarrow> resolve t p = Inr x"
  using resolve_mono[of t p x t'] resolve_mono[of t' p x t] zip_change_dirs[OF assms] by blast

lemma same_walk_trans: "same_walk a b \<Longrightarrow> same_walk b c \<Longrightarrow> same_walk a c"
  by (auto simp: same_walk_def split: option.splits node.splits)

lemma zip_change_trans: "zip_change q t t1 \<Longrightarrow> zip_change q t1 t2 \<Longrightarrow> zip_change q t t2"
  unfolding zip_change_def using same_walk_trans by blast

lemma zip_change_refl:
  "q \<noteq> [] \<Longrightarrow> suffix ''.zip'' (last q) \<Longrightarrow> \<not> dir_at t q \<Longrightarrow> zip_change q t t"
  by (simp add: zip_change_def same_walk_refl)

lemma source_files_zip_change:
  assumes z: "zip_change q (fs w) (fs w')"
  shows "source_files w' src arc = source_files w src arc"
proof (cases "resolve (fs w) src")
  case (Inl e)
  then have "\<And>x. resolve (fs w') src \<noteq> Inr x" using zip_change_resolve[OF z, of src] by auto
  then have "stat w' src = None" by (cases "resolve (fs w') src") (auto simp: stat_def)
  moreover have "stat w src = None" using Inl by (simp add: stat_def)
  ultimately show ?thesis by (simp add: source_files_def)
next
  case (Inr p)
  then have r': "resolve (fs w') src = Inr p" using zip_change_resolve[OF z, of src] by auto
  show ?thesis
  proof (cases "p = q")
    case True
    have nd: "\<not> dir_at (fs w) q" "\<not> dir_at (fs w') q" "suffix ''.zip'' (last q)"
      using z by (auto simp: zip_change_def)
    have "last q = os_path_basename src" using resolve_last[of "fs w" src q] Inr True nd(1) by simp
    then have ex: "should_exclude src" using nd(3) by (simp add: zip_excluded)
    have "source_files w src arc = []" using Inr True nd(1) ex
      by (auto simp: source_files_def stat_def dir_at_def split: option.splits node.splits)
    moreover have "source_files w' src arc = []" using r' True nd(2) ex
      by (auto simp: source_files_def stat_def dir_at_def split: option.splits node.splits)
    ultimately show ?thesis by simp
  next
    case False
    then have "same_walk (lookup (fs w') p) (lookup (fs w) p)" using z by (simp add: zip_change_def)
    then show ?thesis using Inr r'
      by (auto simp: source_files_def stat_def same_walk_def walk_files_from
               split: option.splits node.splits)
  qed
qed

lemma package_files_zip_change:
  "zip_change q (fs w) (fs w') \<Longrightarrow> package_files b w' files = package_files b w files"
  by (simp add: package_files_def source_files_zip_change)

lemma remove_at_file:
  "lookup t q = Some (File r c) \<Longrightarrow> q \<noteq> [] \<Longrightarrow> lookup (remove_at t q) q = None"
proof (induction q arbitrary: t)
  case Nil then show ?case by simp
next
  case (Cons s ss)
  then obtain cs where t: "t = Dir cs" by (cases t) auto
  show ?case
  proof (cases "ss = []")
    case True then show ?thesis using t by (simp add: delete_conv')
  next
    case False
    then show ?thesis using t Cons by (auto simp: update_conv' split: option.splits)
  qed
qed

lemma target_zip:
  assumes "package_filename fmt b sfx = Inr filename"
    and "resolve t (os_path_join (output_dir b) filename) = Inr q" and "\<not> dir_at t q"
  shows "q \<noteq> [] \<and> suffix ''.zip'' (last q)"
proof -
  have "suffix ''.zip'' filename" using assms(1)
    by (auto simp: package_filename_def suffix_def split: sum.splits)
  then have "suffix ''.zip'' (os_path_join (output_dir b) filename)"
    using os_path_join_suffix suffix_order.trans by blast
  then have "suffix ''.zip'' (os_path_basename (os_path_join (output_dir b) filename))"
    by (rule basename_suffix) simp
  then show ?thesis using resolve_last[OF assms(2,3)] by simp
qed

lemma remove_existing_ok:
  assumes pf: "package_filename fmt b sfx = Inr filename"
    and fp: "fp = os_path_join (output_dir b) filename"
    and rm: "remove_existing w filename fp = (Inr (), w1)"
    and rs: "resolve (fs w1) fp = Inr q" and nd: "\<not> dir_at (fs w1) q"
  shows "resolve (fs w) fp = Inr q \<and> zip_change q (fs w) (fs w1) \<and> lookup (fs w1) q = None
     \<and> locked w1 = locked w \<and> stdout w1 = stdout w"
proof (cases "os_path_exists w fp")
  case False
  then have w1: "w1 = w" using rm by (simp add: remove_existing_def)
  then have "lookup (fs w) q = None" using False rs by (simp add: os_path_exists_def stat_def)
  moreover have "zip_change q (fs w) (fs w)"
    using target_zip[OF pf rs[unfolded fp]] nd w1 by (simp add: zip_change_refl)
  ultimately show ?thesis using w1 rs by simp
next
  case True
  then have "fst (os_remove w fp) = Inr () \<and> w1 = snd (os_remove w fp)" using rm
    by (auto simp: remove_existing_def split: prod.splits sum.splits error.splits)
  then obtain q0 r c where q0: "resolve (fs w) fp = Inr q0" and f: "lookup (fs w) q0 = Some (File r c)"
    and w1: "w1 = w\<lparr>fs := remove_at (fs w) q0\<rparr>"
    by (auto simp: os_remove_def split: sum.splits option.splits if_splits node.splits)
  have nd0: "\<not> dir_at (fs w) q0" using f by (simp add: dir_at_def)
  have z0: "q0 \<noteq> [] \<and> suffix ''.zip'' (last q0)" using target_zip[OF pf q0[unfolded fp] nd0] .
  have z: "zip_change q0 (fs w) (fs w1)" using z0 nd0 w1 by (simp add: zip_change_remove)
  have "resolve (fs w1) fp = Inr q0" using zip_change_resolve[OF z] q0 by simp
  then have "q = q0" using rs by simp
  moreover have "lookup (fs w1) q0 = None" using f z0 w1 by (simp add: remove_at_file)
  ultimately show ?thesis using q0 z w1 by simp
qed

lemma create_package_opened:
  assumes pf: "package_filename fmt b sfx = Inr filename"
    and fp: "fp = os_path_join (output_dir b) filename"
    and rm: "remove_existing w filename fp = (Inr (), w1)"
    and op: "open_w w1 fp = (Inr q, w2)"
    and cp: "create_package fmt b w files sfx = (r, w')"
    and wf: "write_files [] (package_files b w files) = (err, es)"
  shows "r = (case err of None \<Rightarrow> Inr fp | Some e \<Rightarrow> Inl e)"
    and "resolve (fs w') fp = Inr q" and "lookup (fs w') q = Some (File True (Zip es))"
    and "zip_change q (fs w) (fs w')"
    and "locked w' = locked w" and "stdout w' = stdout w"
proof -
  note ok = open_w_ok[OF op]
  from remove_existing_ok[OF pf fp rm ok(1,2)]
  have r0: "resolve (fs w) fp = Inr q" and z1: "zip_change q (fs w) (fs w1)"
    and n1: "lookup (fs w1) q = None" and l1: "locked w1 = locked w" "stdout w1 = stdout w"
    by auto
  have zq: "q \<noteq> []" "suffix ''.zip'' (last q)" using z1 by (auto simp: zip_change_def)
  from ok(4) n1 have f2: "fs w2 = put (fs w1) q (File True Raw)" by auto
  have z2: "zip_change q (fs w1) (fs w2)" unfolding f2 using zq ok(2) by (rule zip_change_put)
  have l2: "lookup (fs w2) q = Some (File True Raw)" using f2 ok(3) by (simp add: lookup_put_same)
  have nd2: "\<not> dir_at (fs w2) q" using l2 by (simp add: dir_at_def)
  have p2: "parent_ok (fs w2) q" unfolding f2 using ok(3,2) by (rule put_keeps_parent_ok)
  let ?w3 = "write_content w2 q (Zip es)"
  have f3: "fs ?w3 = put (fs w2) q (File True (Zip es))" using l2 by (simp add: write_content_def)
  have z3: "zip_change q (fs w2) (fs ?w3)" unfolding f3 using zq nd2 by (rule zip_change_put)
  have z: "zip_change q (fs w) (fs ?w3)" using z1 z2 z3 zip_change_trans by blast
  have "package_files b w2 files = package_files b w files"
    using package_files_zip_change[OF zip_change_trans[OF z1 z2]] .
  then have ai: "add_items b w2 [] files = (err, es)" using wf by (simp add: add_items_files)
  have cp': "create_package fmt b w files sfx
      = (case err of None \<Rightarrow> (Inr fp, ?w3) | Some e \<Rightarrow> (Inl e, ?w3))"
    using pf fp rm op ai by (cases err) (simp_all add: create_package_def Let_def)
  then have w': "w' = ?w3" and r: "r = (case err of None \<Rightarrow> Inr fp | Some e \<Rightarrow> Inl e)"
    using cp by (auto split: option.splits)
  show "r = (case err of None \<Rightarrow> Inr fp | Some e \<Rightarrow> Inl e)" by (rule r)
  show "zip_change q (fs w) (fs w')" using z w' by simp
  show "resolve (fs w') fp = Inr q" using zip_change_resolve[OF z] r0 w' by simp
  show "lookup (fs w') q = Some (File True (Zip es))" using f3 p2 w' by (simp add: lookup_put_same)
  show "locked w' = locked w" "stdout w' = stdout w"
    using w' l1 ok(5,6) l2 by (auto simp: write_content_def)
qed

subsection \<open>Building an archive\<close>

lemma os_remove_locked:
  "resolve (fs w) p = Inr q \<Longrightarrow> lookup (fs w) q \<noteq> None \<Longrightarrow> q \<in> set (locked w)
     \<Longrightarrow> os_remove w p = (Inl PermissionError, w)"
  by (auto simp: os_remove_def)

text \<open>
  Claim C6. If a file exists at the path of the archive and its removal is refused because
  the path is locked, then \<open>_create_package\<close> prints the three lines of its error message,
  naming the file, raises \<open>SystemExit(1)\<close> and leaves the file tree as it was: no archive
  is opened or written, under this name or another.
\<close>

theorem locked_archive_aborts:
  assumes "package_filename fmt b sfx = Inr filename"
    and "resolve (fs w) (os_path_join (output_dir b) filename) = Inr q"
    and "lookup (fs w) q \<noteq> None"
    and "q \<in> set (locked w)"
  shows "create_package fmt b w files sfx
           = (Inl (SystemExit 1),
              w\<lparr>stdout := stdout w @
                 [''\<newline>  Error: Cannot overwrite '' @ filename,
                  ''  The file may be open in another program.'',
                  ''  Close the file and try again.\<newline>'']\<rparr>)
    \<and> fs (snd (create_package fmt b w files sfx)) = fs w"
proof -
  let ?fp = "os_path_join (output_dir b) filename"
  have "os_path_exists w ?fp" using assms(2,3) by (simp add: os_path_exists_def stat_def)
  moreover have "os_remove w ?fp = (Inl PermissionError, w)"
    using assms(2,3,4) by (rule os_remove_locked)
  ultimately have "remove_existing w filename ?fp
      = (Inl (SystemExit 1), w\<lparr>stdout := stdout w @ cannot_overwrite filename\<rparr>)"
    by (simp add: remove_existing_def)
  then show ?thesis using assms(1)
    by (simp add: create_package_def Let_def cannot_overwrite_def)
qed

theorem locked_archive_aborts_witness:
  "ReleaseBuilder locked_world ''/proj'' = Inr example_builder
   \<and> create_package (\<lambda>j. []) example_builder locked_world STORE_FILES ''-store''
     = (Inl (SystemExit 1),
        locked_world\<lparr>stdout :=
          [''\<newline>  Error: Cannot overwrite my-ext-v1.2.3-store.zip'',
           ''  The file may be open in another program.'',
           ''  Close the file and try again.\<newline>'']\<rparr>)"
proof -
  have 0: "ReleaseBuilder locked_world ''/proj'' = Inr example_builder" by code_simp
  have 1: "package_filename (\<lambda>j. []) example_builder ''-store'' = Inr ''my-ext-v1.2.3-store.zip''"
    by code_simp
  have 2: "resolve (fs locked_world) (os_path_join (output_dir example_builder) ''my-ext-v1.2.3-store.zip'')
      = Inr [''proj'', ''releases'', ''my-ext-v1.2.3-store.zip'']"
    by code_simp
  have 3: "lookup (fs locked_world) [''proj'', ''releases'', ''my-ext-v1.2.3-store.zip''] \<noteq> None"
    by code_simp
  have 4: "[''proj'', ''releases'', ''my-ext-v1.2.3-store.zip''] \<in> set (locked locked_world)"
    by code_simp
  have "stdout locked_world = []" by (simp add: locked_world_def)
  then show ?thesis using 0 locked_archive_aborts[OF 1 2 3 4, of STORE_FILES] by simp
qed







subsection \<open>The two packages\<close>

lemma package_files_append:
  "package_files b w (xs @ ys) = package_files b w xs @ package_files b w ys"
  by (simp add: package_files_def)

lemma source_files_missing:
  "\<not> os_path_exists w src \<Longrightarrow> source_files w src arc = []"
  by (simp add: os_path_exists_def source_files_def)

lemma package_files_existing:
  "package_files b w (get_existing_files b w file_list) = package_files b w file_list"
  unfolding get_existing_files_def
  by (induction file_list) (auto simp: package_files_def source_files_missing)

lemma opened_zip_change:
  assumes pf: "package_filename fmt b sfx = Inr filename"
    and fp: "fp = os_path_join (output_dir b) filename"
    and rm: "remove_existing w filename fp = (Inr (), w1)"
    and op: "open_w w1 fp = (Inr q, w2)"
  shows "zip_change q (fs w) (fs w2)"
proof -
  note ok = open_w_ok[OF op]
  from remove_existing_ok[OF pf fp rm ok(1,2)]
  have z1: "zip_change q (fs w) (fs w1)" by auto
  have zq: "q \<noteq> []" "suffix ''.zip'' (last q)" using z1 by (auto simp: zip_change_def)
  from ok(4) obtain rd where f2: "fs w2 = put (fs w1) q (File rd Raw)" by auto
  have "zip_change q (fs w1) (fs w2)" unfolding f2 using zq ok(2) by (rule zip_change_put)
  with z1 show ?thesis by (rule zip_change_trans)
qed

lemma create_package_cong:
  assumes "package_files b w files = package_files b w files'"
  shows "create_package fmt b w files sfx = create_package fmt b w files' sfx"
proof (cases "package_filename fmt b sfx")
  case (Inl e)
  then show ?thesis by (simp add: create_package_def)
next
  case (Inr filename)
  let ?fp = "os_path_join (output_dir b) filename"
  obtain r1 w1 where rm: "remove_existing w filename ?fp = (r1, w1)"
    by (cases "remove_existing w filename ?fp")
  show ?thesis
  proof (cases r1)
    case (Inl e)
    then show ?thesis using Inr rm by (simp add: create_package_def Let_def)
  next
    case u: (Inr u)
    obtain r2 w2 where op: "open_w w1 ?fp = (r2, w2)" by (cases "open_w w1 ?fp")
    show ?thesis
    proof (cases r2)
      case (Inl e)
      then show ?thesis using Inr rm u op by (simp add: create_package_def Let_def)
    next
      case q: (Inr q)
      have "zip_change q (fs w) (fs w2)"
        using opened_zip_change[OF Inr refl _ op[unfolded q]] rm u by simp
      then have "package_files b w2 files = package_files b w2 files'"
        using assms by (simp add: package_files_zip_change)
      then have "add_items b w2 [] files = add_items b w2 [] files'"
        by (simp add: add_items_files)
      then show ?thesis using Inr rm u op q by (simp add: create_package_def Let_def)
    qed
  qed
qed

lemma create_package_success:
  assumes "create_package fmt b w files sfx = (Inr fp, w')"
  shows "\<exists>filename q. package_filename fmt b sfx = Inr filename
      \<and> fp = os_path_join (output_dir b) filename
      \<and> resolve (fs w') fp = Inr q \<and> zip_change q (fs w) (fs w')
      \<and> lookup (fs w') q = Some (File True (Zip (map fst (package_files b w files))))
      \<and> locked w' = locked w"
proof -
  obtain filename where pf: "package_filename fmt b sfx = Inr filename"
    using assms by (cases "package_filename fmt b sfx") (auto simp: create_package_def)
  let ?fp = "os_path_join (output_dir b) filename"
  obtain r1 w1 where rm: "remove_existing w filename ?fp = (r1, w1)"
    by (cases "remove_existing w filename ?fp")
  have r1: "r1 = Inr ()" using assms pf rm
    by (cases r1) (auto simp: create_package_def Let_def)
  obtain r2 w2 where op: "open_w w1 ?fp = (r2, w2)" by (cases "open_w w1 ?fp")
  obtain q where r2: "r2 = Inr q" using assms pf rm r1 op
    by (cases r2) (auto simp: create_package_def Let_def)
  obtain err es where wf: "write_files [] (package_files b w files) = (err, es)"
    by (cases "write_files [] (package_files b w files)")
  note c = create_package_opened[OF pf refl rm[unfolded r1] op[unfolded r2] assms wf]
  from c(1) have fp: "fp = ?fp" and "err = None" by (auto split: option.splits)
  then have "es = map fst (package_files b w files)" using wf by (simp add: write_files_ok)
  then show ?thesis using pf fp c by blast
qed

lemma os_path_join_append:
  "x \<noteq> [] \<Longrightarrow> os_path_join a (x @ u) = os_path_join a x @ u"
  by (cases x) (auto simp: os_path_join_def)

lemma package_filename_shape:
  "package_filename fmt b sfx = Inr filename \<Longrightarrow>
     \<exists>x. x \<noteq> [] \<and> (\<forall>sfx'. package_filename fmt b sfx' = Inr (x @ sfx' @ ''.zip''))"
  by (auto simp: package_filename_def split: sum.splits)

lemma targets_differ:
  assumes s: "package_filename fmt b ''-store'' = Inr fs'" and g: "package_filename fmt b '''' = Inr fg"
  shows "os_path_basename (os_path_join (output_dir b) fs')
      \<noteq> os_path_basename (os_path_join (output_dir b) fg)"
proof -
  from package_filename_shape[OF s] obtain x where x: "x \<noteq> []"
    "\<forall>sfx'. package_filename fmt b sfx' = Inr (x @ sfx' @ ''.zip'')" by blast
  then have fs': "fs' = x @ ''-store.zip''" and fg: "fg = x @ ''.zip''" using s g by auto
  let ?p = "os_path_join (output_dir b) x"
  have "os_path_basename (os_path_join (output_dir b) fs') = os_path_basename ?p @ ''-store.zip''"
    unfolding fs' os_path_join_append[OF x(1)] os_path_basename_def
    by (rule split_sep_last_append) simp
  moreover have "os_path_basename (os_path_join (output_dir b) fg) = os_path_basename ?p @ ''.zip''"
    unfolding fg os_path_join_append[OF x(1)] os_path_basename_def
    by (rule split_sep_last_append) simp
  ultimately show ?thesis by simp
qed

lemma build_all_success:
  assumes "build_all fmt b w = (Inr res, w')"
  shows "\<exists>w0 w1. makedirs w (output_dir b) = (Inr (), w0)
      \<and> build_store_package fmt b w0 = (Inr (res_store res), w1)
      \<and> build_github_package fmt b w1 = (Inr (res_github res), w')"
  using assms unfolding build_all_def
  by (auto split: prod.splits sum.splits)

lemma package_files_docs:
  assumes "(e, n) \<in> set (package_files b w file_list)"
  shows "\<exists>item rel. item \<in> set file_list
      \<and> os_path_exists w (os_path_join (project_root b) item) \<and> e = item # rel"
proof -
  from assms obtain item where i: "item \<in> set file_list"
    and s: "(e, n) \<in> set (source_files w (os_path_join (project_root b) item) item)"
    by (auto simp: package_files_def)
  from s have "os_path_exists w (os_path_join (project_root b) item)"
    using source_files_missing by fastforce
  moreover from source_files_names[OF s] obtain rel where "e = item # rel" by blast
  ultimately show ?thesis using i by blast
qed

lemma package_files_file:
  assumes "item \<in> set file_list" and "os_path_isfile w (os_path_join (project_root b) item)"
    and "\<not> should_exclude (os_path_join (project_root b) item)"
  shows "[item] \<in> set (map fst (package_files b w file_list))"
proof -
  from assms(2) obtain r c where "stat w (os_path_join (project_root b) item) = Some (File r c)"
    by (auto simp: os_path_isfile_def split: option.splits node.splits)
  then have "source_files w (os_path_join (project_root b) item) item = [([item], File r c)]"
    using assms(3) by (simp add: source_files_def)
  then show ?thesis using assms(1) by (force simp: package_files_def)
qed

text \<open>
  What the two archives of a successful \<open>build_all\<close> hold: the entries of the full archive
  are the entries of the store archive followed by those that the documentation entries
  contribute, so every entry of the store archive is in the full archive under the same
  name, and every further entry lies under a documentation entry that exists on disk.
  Here \<open>w0\<close> is the state once the output directory has been made.
\<close>

lemma full_package_entries:
  assumes "build_all fmt b w = (Inr res, w')"
  shows "\<exists>w0 es ed. makedirs w (output_dir b) = (Inr (), w0)
     \<and> namelist w' (res_store res) = Some es
     \<and> namelist w' (res_github res) = Some (es @ ed)
     \<and> set es \<subseteq> set (es @ ed)
     \<and> es = map fst (package_files b w0 STORE_FILES)
     \<and> ed = map fst (package_files b w0 DOCS_FILES)
     \<and> (\<forall>e\<in>set ed. \<exists>item rel. item \<in> set DOCS_FILES
            \<and> os_path_exists w0 (os_path_join (project_root b) item) \<and> e = item # rel)
     \<and> (\<forall>item\<in>set DOCS_FILES.
            os_path_isfile w0 (os_path_join (project_root b) item)
            \<and> \<not> should_exclude (os_path_join (project_root b) item) \<longrightarrow> [item] \<in> set ed)"
proof -
  from build_all_success[OF assms] obtain w0 w1 where mk: "makedirs w (output_dir b) = (Inr (), w0)"
    and st: "build_store_package fmt b w0 = (Inr (res_store res), w1)"
    and gh: "build_github_package fmt b w1 = (Inr (res_github res), w')" by blast
  let ?es = "map fst (package_files b w0 STORE_FILES)"
  let ?ed = "map fst (package_files b w0 DOCS_FILES)"
  from create_package_success[OF st[unfolded build_store_package_def]]
  obtain fs' qs where s: "package_filename fmt b ''-store'' = Inr fs'"
    "res_store res = os_path_join (output_dir b) fs'"
    "resolve (fs w1) (res_store res) = Inr qs" "zip_change qs (fs w0) (fs w1)"
    "lookup (fs w1) qs = Some (File True (Zip ?es))"
    by (auto simp: package_files_existing)
  from create_package_success[OF gh[unfolded build_github_package_def]]
  obtain fg qg where g: "package_filename fmt b '''' = Inr fg"
    "res_github res = os_path_join (output_dir b) fg"
    "resolve (fs w') (res_github res) = Inr qg" "zip_change qg (fs w1) (fs w')"
    "lookup (fs w') qg = Some (File True (Zip (map fst (package_files b w1 STORE_FILES)
        @ map fst (package_files b w1 DOCS_FILES))))"
    by (auto simp: package_files_existing package_files_append)
  have eq: "package_files b w1 fl = package_files b w0 fl" for fl
    using s(4) by (rule package_files_zip_change)
  have ng: "namelist w' (res_github res) = Some (?es @ ?ed)"
    using g(3,5) by (simp add: namelist_def stat_def eq)
  have nds: "\<not> dir_at (fs w1) qs" using s(5) by (simp add: dir_at_def)
  have ndg: "\<not> dir_at (fs w') qg" using g(5) by (simp add: dir_at_def)
  have "last qs = os_path_basename (res_store res)" using resolve_last[OF s(3) nds] by simp
  moreover have "last qg = os_path_basename (res_github res)" using resolve_last[OF g(3) ndg] by simp
  ultimately have ne: "qs \<noteq> qg" using targets_differ[OF s(1) g(1)] s(2) g(2) by auto
  then have "same_walk (lookup (fs w') qs) (lookup (fs w1) qs)"
    using g(4) by (simp add: zip_change_def)
  then have "lookup (fs w') qs = Some (File True (Zip ?es))"
    using s(5) by (auto simp: same_walk_def split: option.splits node.splits)
  moreover have "resolve (fs w') (res_store res) = Inr qs"
    using zip_change_resolve[OF g(4)] s(3) by simp
  ultimately have ns: "namelist w' (res_store res) = Some ?es" by (simp add: namelist_def stat_def)
  have d1: "\<forall>e\<in>set ?ed. \<exists>item rel. item \<in> set DOCS_FILES
            \<and> os_path_exists w0 (os_path_join (project_root b) item) \<and> e = item # rel"
    using package_files_docs[of _ _ b w0 DOCS_FILES] by auto
  have d2: "\<forall>item\<in>set DOCS_FILES.
            os_path_isfile w0 (os_path_join (project_root b) item)
            \<and> \<not> should_exclude (os_path_join (project_root b) item) \<longrightarrow> [item] \<in> set ?ed"
    using package_files_file[of _ DOCS_FILES w0 b] by blast
  have "set ?es \<subseteq> set (?es @ ?ed)" by simp
  with mk ns ng d1 d2 show ?thesis by blast
qed

text \<open>
  Claim C4: the entries of the full archive beyond those of the store archive are exactly
  the documentation entries that exist on disk. The code breaks it for a project kept
  below a directory named \<open>docs\<close>. The readme exists there as a regular file, yet the full
  archive holds nothing beyond the store archive, and the manifest is in neither: for a
  file listed directly, \<open>_add_to_zip\<close> gives \<open>_should_exclude\<close> the absolute path, of which
  \<open>docs\<close> is a segment, whereas the walk of a directory gives it the bare name and keeps
  \<open>src/content.js\<close> below the same \<open>docs\<close>. The bare name \<open>README.md\<close> is not excluded.
\<close>

theorem store_subset_of_full_failing_input:
  "ReleaseBuilder docs_world ''/home/u/docs/ext'' = Inr docs_builder
   \<and> ''README.md'' \<in> set DOCS_FILES
   \<and> os_path_isfile docs_world (os_path_join (project_root docs_builder) ''README.md'')
   \<and> should_exclude (os_path_join (project_root docs_builder) ''README.md'')
   \<and> \<not> should_exclude ''README.md''
   \<and> (case build_all (\<lambda>j. []) docs_builder docs_world of
         (Inr res, w') \<Rightarrow>
            namelist w' (res_store res) = Some [[''src'', ''content.js'']]
            \<and> namelist w' (res_github res) = Some [[''src'', ''content.js'']]
       | (Inl e, w') \<Rightarrow> False)"
  by code_simp

lemma full_package_entries_example:
  "(case build_all (\<lambda>j. []) example_builder example_world of
      (Inr res, w') \<Rightarrow>
         namelist w' (res_store res)
           = Some [[''manifest.json''], [''icons'', ''icon16.png''], [''src'', ''content.js''],
                   [''src'', ''lib'', ''util.js'']]
         \<and> namelist w' (res_github res)
           = Some ([[''manifest.json''], [''icons'', ''icon16.png''], [''src'', ''content.js''],
                    [''src'', ''lib'', ''util.js'']] @ [[''README.md''], [''LICENSE'']])
         \<and> (\<exists>es ed. namelist w' (res_store res) = Some es
               \<and> namelist w' (res_github res) = Some (es @ ed) \<and> set es \<subseteq> set (es @ ed))
    | (Inl e, w') \<Rightarrow> False)"
proof -
  let ?S = "[[''manifest.json''], [''icons'', ''icon16.png''], [''src'', ''content.js''],
             [''src'', ''lib'', ''util.js'']]"
  have c: "(case build_all (\<lambda>j. []) example_builder example_world of
      (Inr res, w') \<Rightarrow>
         namelist w' (res_store res) = Some ?S
         \<and> namelist w' (res_github res) = Some (?S @ [[''README.md''], [''LICENSE'']])
    | (Inl e, w') \<Rightarrow> False)"
    by code_simp
  then obtain res w' where b: "build_all (\<lambda>j. []) example_builder example_world = (Inr res, w')"
    by (auto split: prod.splits sum.splits)
  from full_package_entries[OF b]
  have "\<exists>es ed. namelist w' (res_store res) = Some es
      \<and> namelist w' (res_github res) = Some (es @ ed) \<and> set es \<subseteq> set (es @ ed)"
    by blast
  with c b show ?thesis by simp
qed

text \<open>
  Entries that do not exist are skipped and raise no error: a build from a list of entries
  gives the same result and the same file tree as the build from the entries of the list
  that exist. On success the archive holds, in the order of the list, what each entry
  contributes: nothing if it does not exist, the files of the walk if it is a directory.
\<close>

lemma missing_entries_have_no_effect:
  "create_package fmt b w files sfx
     = create_package fmt b w (get_existing_files b w files) sfx
   \<and> (\<forall>fp w'. create_package fmt b w files sfx = (Inr fp, w') \<longrightarrow>
         namelist w' fp
           = Some (map fst (concat (map (\<lambda>item.
                source_files w (os_path_join (project_root b) item) item) files))))
   \<and> (\<forall>item. \<not> os_path_exists w (os_path_join (project_root b) item) \<longrightarrow>
         source_files w (os_path_join (project_root b) item) item = [])
   \<and> (\<forall>item r c. stat w (os_path_join (project_root b) item) = Some (File r c)
          \<and> \<not> should_exclude (os_path_join (project_root b) item) \<longrightarrow>
         source_files w (os_path_join (project_root b) item) item = [([item], File r c)])
   \<and> (\<forall>item cs. stat w (os_path_join (project_root b) item) = Some (Dir cs) \<longrightarrow>
         source_files w (os_path_join (project_root b) item) item = walk_files item cs)"
proof -
  have a: "create_package fmt b w files sfx
      = create_package fmt b w (get_existing_files b w files) sfx"
    by (rule create_package_cong) (simp add: package_files_existing)
  have n: "namelist w' fp
      = Some (map fst (concat (map (\<lambda>item.
                source_files w (os_path_join (project_root b) item) item) files)))"
    if "create_package fmt b w files sfx = (Inr fp, w')" for fp w'
    using create_package_success[OF that]
    by (auto simp: namelist_def stat_def package_files_def)
  have m: "\<forall>item. \<not> os_path_exists w (os_path_join (project_root b) item) \<longrightarrow>
         source_files w (os_path_join (project_root b) item) item = []"
    by (simp add: source_files_missing)
  have f: "\<forall>item r c. stat w (os_path_join (project_root b) item) = Some (File r c)
          \<and> \<not> should_exclude (os_path_join (project_root b) item) \<longrightarrow>
         source_files w (os_path_join (project_root b) item) item = [([item], File r c)]"
    by (simp add: source_files_def)
  have d: "\<forall>item cs. stat w (os_path_join (project_root b) item) = Some (Dir cs) \<longrightarrow>
         source_files w (os_path_join (project_root b) item) item = walk_files item cs"
    by (simp add: source_files_def)
  from a n m f d show ?thesis by blast
qed

text \<open>
  Claim C9: entries that do not exist are skipped, and the archive holds every listed entry
  that does exist. The code breaks the second half for the project kept below \<open>docs\<close>: the
  readme is listed, exists and is the one documentation entry that \<open>_get_existing_files\<close>
  keeps, and the full archive omits it, for the reason given at C4.
\<close>

theorem missing_entries_skipped_failing_input:
  "ReleaseBuilder docs_world ''/home/u/docs/ext'' = Inr docs_builder
   \<and> ''README.md'' \<in> set DOCS_FILES
   \<and> os_path_exists docs_world (os_path_join (project_root docs_builder) ''README.md'')
   \<and> get_existing_files docs_builder docs_world DOCS_FILES = [''README.md'']
   \<and> (case build_github_package (\<lambda>j. []) docs_builder docs_world of
         (Inr fp, w') \<Rightarrow>
            namelist w' fp = Some [[''src'', ''content.js'']]
       | (Inl e, w') \<Rightarrow> False)"
  by code_simp

lemma missing_entries_have_no_effect_example:
  "\<not> os_path_exists example_world ''/proj/CHANGELOG.md''
   \<and> get_existing_files example_builder example_world DOCS_FILES = [''README.md'', ''LICENSE'']
   \<and> (case build_all (\<lambda>j. []) example_builder example_world of
         (Inr res, w') \<Rightarrow> res_github res = ''/proj/releases/my-ext-v1.2.3.zip''
            \<and> namelist w' (res_github res)
               = Some [[''manifest.json''], [''icons'', ''icon16.png''], [''src'', ''content.js''],
                       [''src'', ''lib'', ''util.js''], [''README.md''], [''LICENSE'']]
       | (Inl e, w') \<Rightarrow> False)
   \<and> create_package (\<lambda>j. []) example_builder example_world (STORE_FILES @ DOCS_FILES) ''''
       = create_package (\<lambda>j. []) example_builder example_world
           (get_existing_files example_builder example_world (STORE_FILES @ DOCS_FILES)) ''''"
proof -
  have 1: "\<not> os_path_exists example_world ''/proj/CHANGELOG.md''" by code_simp
  have 2: "get_existing_files example_builder example_world DOCS_FILES = [''README.md'', ''LICENSE'']"
    by code_simp
  have 3: "(case build_all (\<lambda>j. []) example_builder example_world of
         (Inr res, w') \<Rightarrow> res_github res = ''/proj/releases/my-ext-v1.2.3.zip''
            \<and> namelist w' (res_github res)
               = Some [[''manifest.json''], [''icons'', ''icon16.png''], [''src'', ''content.js''],
                       [''src'', ''lib'', ''util.js''], [''README.md''], [''LICENSE'']]
       | (Inl e, w') \<Rightarrow> False)" by code_simp
  show ?thesis
    using 1 2 3 missing_entries_have_no_effect[of "\<lambda>j. []" example_builder example_world
        "STORE_FILES @ DOCS_FILES" "''''"]
    by blast
qed

end
